theory Spec2Isabelle
  imports
    Complex_Main
    "HOL-Library.Word"
    "HOL-Library.List_Lexorder"
    "HOL-Library.Sublist"
    "HOL-Library.Multiset"
begin

section \<open>PastePack: a shallow embedding of \<^verbatim>\<open>src/pastepack.py\<close>\<close>

text \<open>
  The development follows the pipeline of the source: the classifier
  (\<^verbatim>\<open>is_text_file\<close>), the matcher (\<^verbatim>\<open>matches_any\<close>), the traverser
  (\<^verbatim>\<open>walk_inputs\<close>), the extension filter (\<^verbatim>\<open>filter_by_ext\<close>) and the bundler
  (\<^verbatim>\<open>bundle\<close>, here \<open>bundle_files\<close> because \<^verbatim>\<open>bundle\<close> is a reserved word).

  Python values are modelled as follows.
  \<^item> \<^verbatim>\<open>bytes\<close> is a list of 8-bit words.
  \<^item> \<^verbatim>\<open>str\<close> is a list of Unicode code points (natural numbers); the order on
    strings is the lexicographic order on code points, as Python compares strings.
  \<^item> a \<^verbatim>\<open>pathlib.Path\<close> is the list of its \<^verbatim>\<open>parts\<close>; an absolute POSIX path has the
    part \<^verbatim>\<open>/\<close> first.
  \<^item> everything the program asks of the host (the standard library and the file
    system) is a field of the record \<open>host\<close>; every theorem holds for every host.
\<close>

subsection \<open>Python strings and bytes\<close>

type_synonym byte = "8 word"

type_synonym pystr = "nat list"

type_synonym path = "pystr list"

definition lit :: "string \<Rightarrow> pystr" where
  "lit s = map of_char s"

definition NL :: pystr where
  "NL = [10]"

definition CR :: pystr where
  "CR = [13]"

definition DQ :: pystr where
  "DQ = [34]"

definition startswith :: "pystr \<Rightarrow> pystr \<Rightarrow> bool" where
  "startswith s p = prefix p s"

definition endswith :: "pystr \<Rightarrow> pystr \<Rightarrow> bool" where
  "endswith s p = suffix p s"

text \<open>\<^verbatim>\<open>sep.join(xs)\<close>.\<close>

fun join :: "pystr \<Rightarrow> pystr list \<Rightarrow> pystr" where
  "join sep [] = []"
| "join sep [x] = x"
| "join sep (x # y # ys) = x @ sep @ join sep (y # ys)"

text \<open>
  \<^verbatim>\<open>s.replace(old, new)\<close> for a non-empty \<^verbatim>\<open>old\<close>: the occurrences are found from the
  left and do not overlap. (The source only calls it with the non-empty literals
  \<^verbatim>\<open>"\r\n"\<close>, \<^verbatim>\<open>"\r"\<close> and \<^verbatim>\<open>"\\"\<close>; for an empty \<^verbatim>\<open>old\<close> the model leaves the
  string unchanged.)
\<close>

function replace :: "pystr \<Rightarrow> pystr \<Rightarrow> pystr \<Rightarrow> pystr" where
  "replace old new [] = []"
| "replace old new (c # cs) =
     (if old \<noteq> [] \<and> prefix old (c # cs)
      then new @ replace old new (drop (length old) (c # cs))
      else c # replace old new cs)"
  by pat_completeness auto
termination
  by (relation "measure (\<lambda>(old, new, s). length s)") (auto simp: neq_Nil_conv)

text \<open>\<^verbatim>\<open>str(n)\<close> for an integer: its decimal digits, with a minus sign when negative.\<close>

fun dec_nat :: "nat \<Rightarrow> pystr" where
  "dec_nat n = (if n < 10 then [48 + n] else dec_nat (n div 10) @ [48 + n mod 10])"

declare dec_nat.simps [simp del]

definition str_int :: "int \<Rightarrow> pystr" where
  "str_int i = (if i < 0 then 45 # dec_nat (nat (- i)) else dec_nat (nat i))"

text \<open>
  \<^verbatim>\<open>f.read(n)\<close> on a file opened in binary mode, \<open>raw\<close> being what the file holds: at
  most \<open>n\<close> bytes from the start, the whole file when \<open>n\<close> is \<open>-1\<close>, and a
  \<^verbatim>\<open>ValueError\<close> (\<open>Inl\<close> with its message) when \<open>n\<close> is less than \<open>-1\<close>.
\<close>

definition py_read :: "int \<Rightarrow> byte list \<Rightarrow> pystr + byte list" where
  "py_read n raw =
     (if n < - 1 then Inl (lit ''read length must be non-negative or -1'')
      else if n = - 1 then Inr raw
      else Inr (take (nat n) raw))"

subsection \<open>Paths\<close>

definition ROOT :: pystr where
  "ROOT = lit ''/''"

text \<open>\<^verbatim>\<open>str(p)\<close> of a POSIX path.\<close>

definition str_path :: "path \<Rightarrow> pystr" where
  "str_path p =
     (case p of
        [] \<Rightarrow> lit ''.''
      | r # segs \<Rightarrow> if r = ROOT then ROOT @ join ROOT segs else join ROOT (r # segs))"

text \<open>\<^verbatim>\<open>p.name\<close>: the last part, empty for the root and for the empty path.\<close>

definition name_of :: "path \<Rightarrow> pystr" where
  "name_of p = (if p = [] \<or> p = [ROOT] then [] else last p)"

text \<open>\<^verbatim>\<open>p.parent\<close>: the root and the empty path are their own parents.\<close>

definition parent :: "path \<Rightarrow> path" where
  "parent p = (if p = [] \<or> p = [ROOT] then p else butlast p)"

text \<open>
  \<^verbatim>\<open>p.suffix\<close>: the name from its last dot on, when that dot is neither the first nor
  the last character of the name; empty otherwise.
\<close>

fun rfind_dot :: "pystr \<Rightarrow> nat option" where
  "rfind_dot [] = None"
| "rfind_dot (c # cs) =
     (case rfind_dot cs of
        Some i \<Rightarrow> Some (Suc i)
      | None \<Rightarrow> if c = 46 then Some 0 else None)"

definition suffix_of :: "path \<Rightarrow> pystr" where
  "suffix_of p =
     (let name = name_of p in
      case rfind_dot name of
        None \<Rightarrow> []
      | Some i \<Rightarrow> if 0 < i \<and> i < length name - 1 then drop i name else [])"

subsection \<open>The host\<close>

text \<open>
  What the program takes from the standard library and the operating system.
  \<open>h_open\<close> is \<^verbatim>\<open>open(p, "rb")\<close> as the classifier calls it during the traversal: the
  bytes the file holds then, or \<open>Inl e\<close> for the exception raised, \<open>e\<close> its message.
  \<open>h_read_bytes\<close> is \<^verbatim>\<open>Path.read_bytes\<close> as the bundler calls it later. The two are
  separate fields: a file that the classifier could open may be unreadable, or hold
  other bytes, when the bundler reads it.
  \<open>h_decode\<close> is \<^verbatim>\<open>bytes.decode("utf-8", errors="replace")\<close>, which raises no
  decoding error. \<open>h_tree\<close> is the directory tree below the file system's root.
  \<open>h_isoformat\<close> is \<^verbatim>\<open>datetime.fromtimestamp(t, tz=timezone.utc).isoformat()\<close> for a
  time the platform can convert, as the modification time of a file is; for a time
  outside the years 1 to 9999 the source raises and returns no bundle, a run the model
  does not describe.
\<close>

datatype fsnode = File int real | Dir "(pystr \<times> fsnode) list"

record host =
  h_open :: "path \<Rightarrow> pystr + byte list"
  h_read_bytes :: "path \<Rightarrow> pystr + byte list"
  h_tree :: fsnode
  h_resolve :: "path \<Rightarrow> path"
  h_abspath :: "pystr \<Rightarrow> pystr"
  h_fnmatch :: "pystr \<Rightarrow> pystr \<Rightarrow> bool"
  h_lower :: "pystr \<Rightarrow> pystr"
  h_isspace :: "nat \<Rightarrow> bool"
  h_decode :: "byte list \<Rightarrow> pystr"
  h_sha256_hex :: "byte list \<Rightarrow> pystr"
  h_isoformat :: "real \<Rightarrow> pystr"
  h_now_iso :: pystr

subsection \<open>Data types\<close>

record FileEntry =
  fe_root :: path
  fe_path :: path
  fe_rel :: path
  fe_size :: int
  fe_mtime :: real

subsection \<open>Helper functions\<close>

definition is_text_file :: "host \<Rightarrow> path \<Rightarrow> int \<Rightarrow> bool" where
  "is_text_file h p sample_size =
     (case h_open h p of
        Inl e \<Rightarrow> False
      | Inr raw \<Rightarrow>
          (case py_read sample_size raw of
             Inl e \<Rightarrow> False
           | Inr chunk \<Rightarrow> if 0 \<in> set chunk then False else True))"

definition sha256_bytes :: "host \<Rightarrow> byte list \<Rightarrow> pystr" where
  "sha256_bytes h b = h_sha256_hex h b"

definition normalise_newlines :: "pystr \<Rightarrow> pystr" where
  "normalise_newlines s = replace CR NL (replace (CR @ NL) NL s)"

fun matches_any :: "host \<Rightarrow> pystr \<Rightarrow> pystr list \<Rightarrow> bool" where
  "matches_any h name [] = False"
| "matches_any h name (pat # patterns) =
     (if startswith pat ROOT
      then (if startswith (h_abspath h name) (h_abspath h pat) then True
            else matches_any h name patterns)
      else (if h_fnmatch h name pat then True
            else matches_any h name patterns))"

text \<open>The test of one pattern in the loop of \<^verbatim>\<open>matches_any\<close> (lines 124 to 130).\<close>

definition pattern_matches :: "host \<Rightarrow> pystr \<Rightarrow> pystr \<Rightarrow> bool" where
  "pattern_matches h name pat =
     (if startswith pat ROOT then startswith (h_abspath h name) (h_abspath h pat)
      else h_fnmatch h name pat)"

subsection \<open>Traversal\<close>

definition DOT :: pystr where
  "DOT = lit ''.''"

text \<open>The sample size \<^verbatim>\<open>is_text_file\<close> is called with: its default.\<close>

definition SAMPLE_SIZE :: int where
  "SAMPLE_SIZE = 1024"

fun lookup :: "fsnode \<Rightarrow> pystr list \<Rightarrow> fsnode option" where
  "lookup n [] = Some n"
| "lookup (File sz mt) (s # segs) = None"
| "lookup (Dir es) (s # segs) =
     (case map_of es s of None \<Rightarrow> None | Some n \<Rightarrow> lookup n segs)"

text \<open>The node a resolved (absolute) path names, if any.\<close>

definition node_at :: "host \<Rightarrow> path \<Rightarrow> fsnode option" where
  "node_at h p =
     (case p of
        [] \<Rightarrow> None
      | r # segs \<Rightarrow> if r = ROOT then lookup (h_tree h) segs else None)"

text \<open>
  The test that prunes the subdirectory \<open>d\<close> of \<open>dirpath\<close> (lines 149 to 155);
  \<^verbatim>\<open>os.path.join(dirpath, d)\<close> is the string of the path \<open>dirpath @ [d]\<close>.
\<close>

definition dir_pruned :: "host \<Rightarrow> pystr list \<Rightarrow> bool \<Rightarrow> path \<Rightarrow> pystr \<Rightarrow> bool" where
  "dir_pruned h ex_patterns include_hidden dirpath d =
     ((\<not> include_hidden \<and> startswith d DOT)
      \<or> matches_any h d ex_patterns
      \<or> matches_any h (str_path (dirpath @ [d])) ex_patterns)"

text \<open>The body of the loop over \<^verbatim>\<open>filenames\<close> (lines 156 to 165) for one entry.\<close>

fun file_entries ::
  "host \<Rightarrow> pystr list \<Rightarrow> bool \<Rightarrow> path \<Rightarrow> path \<Rightarrow> pystr \<times> fsnode \<Rightarrow> FileEntry list" where
  "file_entries h ex_patterns include_hidden p dirpath (f, Dir es) = []"
| "file_entries h ex_patterns include_hidden p dirpath (f, File sz mt) =
     (let full = dirpath @ [f] in
      if \<not> include_hidden \<and> startswith f DOT then []
      else if matches_any h f ex_patterns \<or> matches_any h (str_path full) ex_patterns then []
      else if is_text_file h full SAMPLE_SIZE
      then [\<lparr>fe_root = p, fe_path = full, fe_rel = drop (length p) full,
             fe_size = sz, fe_mtime = mt\<rparr>]
      else [])"

text \<open>
  \<^verbatim>\<open>os.walk(p)\<close>, top down, with the loop body of \<^verbatim>\<open>walk_inputs\<close>: the files of a
  directory first, then its subdirectories that were not pruned, in order.
  \<^verbatim>\<open>os.walk\<close> does not follow links to directories, so the walk is a recursion over
  the tree.
\<close>

fun walk :: "host \<Rightarrow> pystr list \<Rightarrow> bool \<Rightarrow> path \<Rightarrow> path \<Rightarrow> (pystr \<times> fsnode) list \<Rightarrow> FileEntry list"
  and walk_dirs :: "host \<Rightarrow> pystr list \<Rightarrow> bool \<Rightarrow> path \<Rightarrow> path \<Rightarrow> (pystr \<times> fsnode) list \<Rightarrow> FileEntry list"
  where
  "walk h ex_patterns include_hidden p dirpath es =
     concat (map (file_entries h ex_patterns include_hidden p dirpath) es)
       @ walk_dirs h ex_patterns include_hidden p dirpath es"
| "walk_dirs h ex_patterns include_hidden p dirpath [] = []"
| "walk_dirs h ex_patterns include_hidden p dirpath ((d, File sz mt) # es) =
     walk_dirs h ex_patterns include_hidden p dirpath es"
| "walk_dirs h ex_patterns include_hidden p dirpath ((d, Dir sub) # es) =
     (if dir_pruned h ex_patterns include_hidden dirpath d then []
      else walk h ex_patterns include_hidden p (dirpath @ [d]) sub)
       @ walk_dirs h ex_patterns include_hidden p dirpath es"

text \<open>The body of the loop over \<^verbatim>\<open>paths\<close> for one resolved path \<open>p\<close>.\<close>

definition walk_input :: "host \<Rightarrow> path \<Rightarrow> pystr list \<Rightarrow> bool \<Rightarrow> FileEntry list" where
  "walk_input h p ex_patterns include_hidden =
     (case node_at h p of
        Some (File sz mt) \<Rightarrow>
          if \<not> include_hidden \<and> list_ex (\<lambda>part. startswith part DOT) (tl p) then []
          else if matches_any h (name_of p) ex_patterns \<or> matches_any h (str_path p) ex_patterns
          then []
          else if is_text_file h p SAMPLE_SIZE
          then [\<lparr>fe_root = parent p, fe_path = p, fe_rel = [name_of p],
                 fe_size = sz, fe_mtime = mt\<rparr>]
          else []
      | Some (Dir es) \<Rightarrow> walk h ex_patterns include_hidden p p es
      | None \<Rightarrow> [])"

fun walk_inputs :: "host \<Rightarrow> path list \<Rightarrow> pystr list \<Rightarrow> bool \<Rightarrow> FileEntry list" where
  "walk_inputs h [] ex_patterns include_hidden = []"
| "walk_inputs h (p # paths) ex_patterns include_hidden =
     walk_input h (h_resolve h p) ex_patterns include_hidden
       @ walk_inputs h paths ex_patterns include_hidden"

subsection \<open>The files below a directory\<close>

text \<open>
  Every regular file below a directory: its path from the directory, its size and its
  time, in the order of \<^verbatim>\<open>os.walk\<close> (the files of a directory first, then those of its
  subdirectories in order). No test is applied here.
\<close>

fun direct_file :: "pystr \<times> fsnode \<Rightarrow> (path \<times> int \<times> real) list" where
  "direct_file (f, File sz mt) = [([f], sz, mt)]"
| "direct_file (f, Dir es) = []"

fun all_files :: "(pystr \<times> fsnode) list \<Rightarrow> (path \<times> int \<times> real) list"
  and sub_files :: "(pystr \<times> fsnode) list \<Rightarrow> (path \<times> int \<times> real) list"
  where
  "all_files es = concat (map direct_file es) @ sub_files es"
| "sub_files [] = []"
| "sub_files ((d, File sz mt) # es) = sub_files es"
| "sub_files ((d, Dir sub) # es) =
     map (\<lambda>(r, sz, mt). (d # r, sz, mt)) (all_files sub) @ sub_files es"

text \<open>
  The tests on the parts of a path \<open>rel\<close> below the directory \<open>dirpath\<close>: no part is
  hidden (unless hidden files are included), and no part is matched by a pattern, by
  its bare name or by its full path.
\<close>

fun passes :: "host \<Rightarrow> pystr list \<Rightarrow> bool \<Rightarrow> path \<Rightarrow> path \<Rightarrow> bool" where
  "passes h ex_patterns include_hidden dirpath [] = True"
| "passes h ex_patterns include_hidden dirpath (s # rel) =
     (\<not> (\<not> include_hidden \<and> startswith s DOT)
      \<and> \<not> matches_any h s ex_patterns
      \<and> \<not> matches_any h (str_path (dirpath @ [s])) ex_patterns
      \<and> passes h ex_patterns include_hidden (dirpath @ [s]) rel)"

text \<open>
  The entry that the walk of the input directory \<open>p\<close> makes of a file, given by its path
  from the directory \<open>dirpath\<close> below \<open>p\<close>; and the files that it keeps: those that pass
  the tests on the parts of their path and that the classifier accepts. Lemma \<open>walk_eq\<close>
  shows that \<open>walk\<close> computes the entries of the files kept, in the order of
  \<open>all_files\<close>.
\<close>

definition mk_entry :: "path \<Rightarrow> path \<Rightarrow> path \<times> int \<times> real \<Rightarrow> FileEntry" where
  "mk_entry p dirpath = (\<lambda>(r, sz, mt).
     \<lparr>fe_root = p, fe_path = dirpath @ r, fe_rel = drop (length p) (dirpath @ r),
      fe_size = sz, fe_mtime = mt\<rparr>)"

definition keeps :: "host \<Rightarrow> pystr list \<Rightarrow> bool \<Rightarrow> path \<Rightarrow> path \<times> int \<times> real \<Rightarrow> bool" where
  "keeps h ex hid dirpath = (\<lambda>(r, sz, mt). passes h ex hid dirpath r \<and> is_text_file h (dirpath @ r) SAMPLE_SIZE)"

subsection \<open>Extension filter\<close>

text \<open>\<^verbatim>\<open>s.strip()\<close>: leading and trailing white space removed.\<close>

definition strip :: "host \<Rightarrow> pystr \<Rightarrow> pystr" where
  "strip h s = rev (dropWhile (h_isspace h) (rev (dropWhile (h_isspace h) s)))"

definition filter_by_ext :: "host \<Rightarrow> FileEntry list \<Rightarrow> pystr list option \<Rightarrow> FileEntry list" where
  "filter_by_ext h entries allowed_exts =
     (case allowed_exts of
        None \<Rightarrow> entries
      | Some exts \<Rightarrow>
          if exts = [] \<or> exts = [lit ''*''] then entries
          else
            (let allowed = set (map (\<lambda>e. strip h (h_lower h e)) exts) in
             filter (\<lambda>fe. h_lower h (suffix_of (fe_path fe)) \<in> allowed) entries))"

subsection \<open>Bundling\<close>

definition LANG_BY_EXT :: "(pystr \<times> pystr) list" where
  "LANG_BY_EXT =
     [(lit ''.py'', lit ''python''), (lit ''.pyi'', lit ''python''), (lit ''.toml'', lit ''toml''),
      (lit ''.ini'', lit ''ini''), (lit ''.json'', lit ''json''), (lit ''.yml'', lit ''yaml''),
      (lit ''.yaml'', lit ''yaml''), (lit ''.js'', lit ''javascript''),
      (lit ''.mjs'', lit ''javascript''), (lit ''.cjs'', lit ''javascript''),
      (lit ''.ts'', lit ''ts''), (lit ''.tsx'', lit ''tsx''), (lit ''.jsx'', lit ''jsx''),
      (lit ''.html'', lit ''html''), (lit ''.htm'', lit ''html''), (lit ''.css'', lit ''css''),
      (lit ''.scss'', lit ''scss''), (lit ''.less'', lit ''less''), (lit ''.md'', lit ''md''),
      (lit ''.txt'', lit ''text''), (lit ''.csv'', lit ''csv''), (lit ''.xml'', lit ''xml''),
      (lit ''.java'', lit ''java''), (lit ''.kt'', lit ''kotlin''), (lit ''.kts'', lit ''kotlin''),
      (lit ''.scala'', lit ''scala''), (lit ''.go'', lit ''go''), (lit ''.rs'', lit ''rust''),
      (lit ''.c'', lit ''c''), (lit ''.h'', lit ''c''), (lit ''.cpp'', lit ''cpp''),
      (lit ''.hpp'', lit ''cpp''), (lit ''.sql'', lit ''sql''), (lit ''.sh'', lit ''bash''),
      (lit ''.bash'', lit ''bash''), (lit ''.zsh'', lit ''zsh''),
      (lit ''.ps1'', lit ''powershell''), (lit ''.bat'', lit ''bat''), (lit ''.env'', lit ''bash'')]"

definition infer_lang :: "host \<Rightarrow> pystr \<Rightarrow> pystr" where
  "infer_lang h ext = (case map_of LANG_BY_EXT (h_lower h ext) of None \<Rightarrow> [] | Some l \<Rightarrow> l)"

definition HEADER_LINE :: pystr where
  "HEADER_LINE = replicate 78 61"

text \<open>The dash of the messages: a space, U+2014, a space.\<close>

definition DASH :: pystr where
  "DASH = [32, 8212, 32]"

text \<open>
  \<^verbatim>\<open>INTRO_TEMPLATE.format(generated_iso=..., roots=..., file_count=..., total_bytes=...)\<close>;
  the two hyphens of the first line are U+2011.
\<close>

definition INTRO_TEMPLATE :: "pystr \<Rightarrow> pystr \<Rightarrow> int \<Rightarrow> int \<Rightarrow> pystr" where
  "INTRO_TEMPLATE generated_iso roots file_count total_bytes =
     lit ''PASTE'' @ [8209] @ lit ''PACK BUNDLE'' @ DASH @ lit ''multi'' @ [8209]
       @ lit ''file paste for ChatGPT'' @ NL
       @ lit ''Generated: '' @ generated_iso @ NL
       @ lit ''Paths: '' @ roots @ NL
       @ lit ''Files included: '' @ str_int file_count @ lit ''; Total bytes: ''
       @ str_int total_bytes @ NL
       @ lit ''Notes: Each file starts with a <<<FILE ...>>> header and ends with <<<END FILE>>>.''
       @ NL
       @ lit ''Please treat each file separately when reviewing.'' @ NL"

text \<open>One item of the header: a string is quoted, an integer is written bare.\<close>

definition quoted :: "string \<Rightarrow> pystr \<Rightarrow> pystr" where
  "quoted k v = lit k @ lit ''='' @ DQ @ v @ DQ"

definition bare :: "string \<Rightarrow> int \<Rightarrow> pystr" where
  "bare k v = lit k @ lit ''='' @ str_int v"

definition build_header :: "host \<Rightarrow> FileEntry \<Rightarrow> pystr \<Rightarrow> pystr \<Rightarrow> int \<Rightarrow> pystr" where
  "build_header h fe lang sha256 bytes_len =
     (let ts = h_isoformat h (fe_mtime fe);
          parts =
            [quoted ''path'' (replace [92] ROOT (str_path (fe_rel fe))),
             quoted ''abspath'' (str_path (fe_path fe)),
             bare ''size'' bytes_len,
             quoted ''mtime'' ts,
             quoted ''sha256'' sha256,
             quoted ''lang'' lang]
      in lit ''<<<FILE '' @ join (lit '' '') parts @ lit ''>>>'' @ NL)"

text \<open>The three warnings of \<^verbatim>\<open>bundle\<close> (lines 218, 222 and 227).\<close>

definition warn_read :: "FileEntry \<Rightarrow> pystr \<Rightarrow> pystr" where
  "warn_read fe e =
     lit ''Skipping '' @ str_path (fe_path fe) @ DASH @ lit ''read error: '' @ e"

definition warn_file :: "FileEntry \<Rightarrow> byte list \<Rightarrow> int \<Rightarrow> pystr" where
  "warn_file fe raw max_file_bytes =
     lit ''Skipping '' @ str_path (fe_rel fe) @ DASH @ str_int (int (length raw))
       @ lit '' bytes exceeds --max-file-bytes='' @ str_int max_file_bytes"

definition warn_total :: "FileEntry \<Rightarrow> int \<Rightarrow> pystr" where
  "warn_total fe max_total_bytes =
     lit ''Stopped before '' @ str_path (fe_rel fe) @ DASH
       @ lit ''adding it would exceed --max-total-bytes='' @ str_int max_total_bytes"

text \<open>The fence: three backquotes.\<close>

definition FENCE :: pystr where
  "FENCE = [96, 96, 96]"

text \<open>What one included file adds to \<^verbatim>\<open>out\<close> (lines 231 to 246).\<close>

definition render_block :: "host \<Rightarrow> FileEntry \<Rightarrow> byte list \<Rightarrow> pystr" where
  "render_block h fe raw =
     (let text = normalise_newlines (h_decode h raw);
          lang = infer_lang h (suffix_of (fe_path fe));
          digest = sha256_bytes h raw;
          header = build_header h fe lang digest (int (length raw));
          fence_lang = (if lang \<noteq> [] then lang else [])
      in HEADER_LINE @ NL
         @ header
         @ FENCE @ fence_lang @ NL
         @ text
         @ (if \<not> endswith text NL then NL else [])
         @ FENCE @ NL
         @ lit ''<<<END FILE>>>'' @ NL
         @ HEADER_LINE @ NL @ NL)"

text \<open>The body of a block: what lines 241 to 243 write between the two fences.\<close>

definition block_body :: "host \<Rightarrow> byte list \<Rightarrow> pystr" where
  "block_body h raw =
     (let text = normalise_newlines (h_decode h raw) in
      text @ (if \<not> endswith text NL then NL else []))"

record bstate =
  b_out :: pystr
  b_warnings :: "pystr list"
  b_total :: int
  b_included :: int

text \<open>
  The loop of \<^verbatim>\<open>bundle\<close> over the sorted entries: \<^verbatim>\<open>continue\<close> goes on with the
  rest, \<^verbatim>\<open>break\<close> returns the state.
\<close>

fun bundle_loop :: "host \<Rightarrow> int \<Rightarrow> int \<Rightarrow> FileEntry list \<Rightarrow> bstate \<Rightarrow> bstate" where
  "bundle_loop h max_file_bytes max_total_bytes [] st = st"
| "bundle_loop h max_file_bytes max_total_bytes (fe # rest) st =
     (case h_read_bytes h (fe_path fe) of
        Inl e \<Rightarrow>
          bundle_loop h max_file_bytes max_total_bytes rest
            (st\<lparr>b_warnings := b_warnings st @ [warn_read fe e]\<rparr>)
      | Inr raw \<Rightarrow>
          if max_file_bytes > 0 \<and> int (length raw) > max_file_bytes
          then bundle_loop h max_file_bytes max_total_bytes rest
                 (st\<lparr>b_warnings := b_warnings st @ [warn_file fe raw max_file_bytes]\<rparr>)
          else if max_total_bytes > 0 \<and> b_total st + int (length raw) > max_total_bytes
          then st\<lparr>b_warnings := b_warnings st @ [warn_total fe max_total_bytes]\<rparr>
          else bundle_loop h max_file_bytes max_total_bytes rest
                 (st\<lparr>b_out := b_out st @ render_block h fe raw,
                     b_total := b_total st + int (length raw),
                     b_included := b_included st + 1\<rparr>))"

text \<open>The state before the loop (lines 206 to 210).\<close>

definition init_state :: bstate where
  "init_state = \<lparr>b_out = [], b_warnings = [], b_total = 0, b_included = 0\<rparr>"

text \<open>The key of the sort (line 212), and the sort: Python's \<^verbatim>\<open>sorted\<close> is stable.\<close>

definition sort_field :: "host \<Rightarrow> FileEntry \<Rightarrow> pystr" where
  "sort_field h e = h_lower h (str_path (fe_rel e))"

definition sort_entries :: "host \<Rightarrow> FileEntry list \<Rightarrow> FileEntry list" where
  "sort_entries h entries = sort_key (sort_field h) entries"

definition bundle_files :: "host \<Rightarrow> FileEntry list \<Rightarrow> int \<Rightarrow> int \<Rightarrow> pystr \<times> pystr list" where
  "bundle_files h entries0 max_file_bytes max_total_bytes =
     (let entries = sort_entries h entries0;
          st = bundle_loop h max_file_bytes max_total_bytes entries init_state;
          intro = INTRO_TEMPLATE (h_now_iso h)
                    (join (lit '', '') (sorted_list_of_set (set (map (\<lambda>e. str_path (fe_root e)) entries))))
                    (b_included st) (b_total st);
          final = intro @ NL @ b_out st
      in (final, b_warnings st))"

subsection \<open>The pipeline of \<^verbatim>\<open>main\<close>\<close>

text \<open>
  Lines 322 to 331 of \<^verbatim>\<open>main\<close>, after the input paths were found to exist: traversal,
  extension filter, bundling. \<open>Inl 3\<close> is the exit status when no entry is left.
\<close>

definition pipeline ::
  "host \<Rightarrow> path list \<Rightarrow> pystr list \<Rightarrow> bool \<Rightarrow> pystr list \<Rightarrow> int \<Rightarrow> int \<Rightarrow> int + pystr \<times> pystr list" where
  "pipeline h roots exclude include_hidden allowed_exts max_file_bytes max_total_bytes =
     (let entries = filter_by_ext h (walk_inputs h roots exclude include_hidden) (Some allowed_exts) in
      if entries = [] then Inl 3
      else Inr (bundle_files h entries max_file_bytes max_total_bytes))"

subsection \<open>What the loop includes and what it warns of\<close>

text \<open>
  The entries the loop includes, each with the bytes read for it, when the loop starts
  on \<open>entries\<close> with the running total \<open>tot\<close>; and the warnings it appends. Lemma
  \<open>bundle_loop_eq\<close> shows that these are what \<open>bundle_loop\<close> computes: the text
  written is the blocks of the included files in order.
\<close>

fun included_files :: "host \<Rightarrow> int \<Rightarrow> int \<Rightarrow> int \<Rightarrow> FileEntry list \<Rightarrow> (FileEntry \<times> byte list) list" where
  "included_files h max_file_bytes max_total_bytes tot [] = []"
| "included_files h max_file_bytes max_total_bytes tot (fe # rest) =
     (case h_read_bytes h (fe_path fe) of
        Inl e \<Rightarrow> included_files h max_file_bytes max_total_bytes tot rest
      | Inr raw \<Rightarrow>
          if max_file_bytes > 0 \<and> int (length raw) > max_file_bytes
          then included_files h max_file_bytes max_total_bytes tot rest
          else if max_total_bytes > 0 \<and> tot + int (length raw) > max_total_bytes
          then []
          else (fe, raw)
                 # included_files h max_file_bytes max_total_bytes (tot + int (length raw)) rest)"

fun bundle_warnings :: "host \<Rightarrow> int \<Rightarrow> int \<Rightarrow> int \<Rightarrow> FileEntry list \<Rightarrow> pystr list" where
  "bundle_warnings h max_file_bytes max_total_bytes tot [] = []"
| "bundle_warnings h max_file_bytes max_total_bytes tot (fe # rest) =
     (case h_read_bytes h (fe_path fe) of
        Inl e \<Rightarrow> warn_read fe e # bundle_warnings h max_file_bytes max_total_bytes tot rest
      | Inr raw \<Rightarrow>
          if max_file_bytes > 0 \<and> int (length raw) > max_file_bytes
          then warn_file fe raw max_file_bytes
                 # bundle_warnings h max_file_bytes max_total_bytes tot rest
          else if max_total_bytes > 0 \<and> tot + int (length raw) > max_total_bytes
          then [warn_total fe max_total_bytes]
          else bundle_warnings h max_file_bytes max_total_bytes (tot + int (length raw)) rest)"

text \<open>A warning of the third kind: the loop stopped.\<close>

definition is_stop_warning :: "pystr \<Rightarrow> bool" where
  "is_stop_warning w = startswith w (lit ''Stopped before '')"

definition raw_total :: "(FileEntry \<times> byte list) list \<Rightarrow> int" where
  "raw_total inc = sum_list (map (\<lambda>(fe, raw). int (length raw)) inc)"

definition blocks :: "host \<Rightarrow> (FileEntry \<times> byte list) list \<Rightarrow> pystr" where
  "blocks h inc = concat (map (\<lambda>(fe, raw). render_block h fe raw) inc)"

text \<open>
  The entries that are read and are within the limit for one file, with their bytes:
  the entries that reach the test of the total.
\<close>

fun readable_within :: "host \<Rightarrow> int \<Rightarrow> FileEntry list \<Rightarrow> (FileEntry \<times> byte list) list" where
  "readable_within h max_file_bytes [] = []"
| "readable_within h max_file_bytes (fe # rest) =
     (case h_read_bytes h (fe_path fe) of
        Inl e \<Rightarrow> readable_within h max_file_bytes rest
      | Inr raw \<Rightarrow>
          if max_file_bytes > 0 \<and> int (length raw) > max_file_bytes
          then readable_within h max_file_bytes rest
          else (fe, raw) # readable_within h max_file_bytes rest)"

text \<open>
  The warning an entry gets on its own account, if any: its read failed, or it is over
  the limit for one file.
\<close>

definition own_warning :: "host \<Rightarrow> int \<Rightarrow> FileEntry \<Rightarrow> pystr list" where
  "own_warning h max_file_bytes fe =
     (case h_read_bytes h (fe_path fe) of
        Inl e \<Rightarrow> [warn_read fe e]
      | Inr raw \<Rightarrow>
          if max_file_bytes > 0 \<and> int (length raw) > max_file_bytes
          then [warn_file fe raw max_file_bytes]
          else [])"

subsection \<open>Newlines, as the specification words them\<close>

text \<open>
  One pass from the left: a carriage return followed by a line feed becomes one line
  feed, any other carriage return becomes a line feed, every other character stays.
\<close>

fun newlines_spec :: "pystr \<Rightarrow> pystr" where
  "newlines_spec [] = []"
| "newlines_spec [c] = (if c = 13 then [10] else [c])"
| "newlines_spec (c # d # cs) =
     (if c = 13 \<and> d = 10 then 10 # newlines_spec cs
      else if c = 13 then 10 # newlines_spec (d # cs)
      else c # newlines_spec (d # cs))"

subsection \<open>A sample host\<close>

text \<open>
  A host to run the definitions on: lower-casing of ASCII letters, patterns with
  \<^verbatim>\<open>*\<close> and \<^verbatim>\<open>?\<close>, the working directory \<^verbatim>\<open>/work\<close>, the files of an association
  list. It instantiates the theorems; no theorem depends on it.
\<close>

definition ascii_lower :: "pystr \<Rightarrow> pystr" where
  "ascii_lower s = map (\<lambda>c. if 65 \<le> c \<and> c \<le> 90 then c + 32 else c) s"

fun glob :: "pystr \<Rightarrow> pystr \<Rightarrow> bool" where
  "glob [] [] = True"
| "glob [] (c # cs) = False"
| "glob (p # ps) [] = (p = 42 \<and> glob ps [])"
| "glob (p # ps) (c # cs) =
     (if p = 42 then glob ps (c # cs) \<or> glob (p # ps) cs
      else (p = 63 \<or> p = c) \<and> glob ps cs)"

definition files_of :: "(path \<times> byte list) list \<Rightarrow> path \<Rightarrow> pystr + byte list" where
  "files_of fs p = (case map_of fs p of None \<Rightarrow> Inl (lit ''No such file'') | Some raw \<Rightarrow> Inr raw)"

definition sample_host :: "(path \<times> byte list) list \<Rightarrow> fsnode \<Rightarrow> host" where
  "sample_host fs tree =
     \<lparr>h_open = files_of fs,
      h_read_bytes = files_of fs,
      h_tree = tree,
      h_resolve = (\<lambda>p. p),
      h_abspath = (\<lambda>s. if startswith s ROOT then s else lit ''/work/'' @ s),
      h_fnmatch = (\<lambda>name pat. glob pat name),
      h_lower = ascii_lower,
      h_isspace = (\<lambda>c. c = 32 \<or> (9 \<le> c \<and> c \<le> 13)),
      h_decode = map unat,
      h_sha256_hex = (\<lambda>b. lit ''digest-of-'' @ str_int (int (length b))),
      h_isoformat = (\<lambda>t. lit ''1970-01-01T00:00:00+00:00''),
      h_now_iso = lit ''2024-01-01T00:00:00+00:00''\<rparr>"

definition entry :: "path \<Rightarrow> path \<Rightarrow> int \<Rightarrow> FileEntry" where
  "entry dir r sz = \<lparr>fe_root = dir, fe_path = dir @ r, fe_rel = r, fe_size = sz, fe_mtime = 0\<rparr>"

text \<open>Three small files of one directory: three bytes, four bytes and one byte.\<close>

definition src_dir :: path where
  "src_dir = [lit ''/'', lit ''p'']"

definition small_a :: FileEntry where
  "small_a = entry src_dir [lit ''a.py''] 3"

definition small_b :: FileEntry where
  "small_b = entry src_dir [lit ''B.py''] 4"

definition small_c :: FileEntry where
  "small_c = entry src_dir [lit ''c.py''] 1"

definition small_host :: host where
  "small_host =
     sample_host
       [(src_dir @ [lit ''a.py''], [104, 105, 10]),
        (src_dir @ [lit ''B.py''], [104, 13, 10, 33]),
        (src_dir @ [lit ''c.py''], [120])]
       (Dir [(lit ''p'', Dir [(lit ''a.py'', File 3 0), (lit ''B.py'', File 4 0),
                             (lit ''c.py'', File 1 0)])])"

text \<open>A file of twenty bytes and one of five.\<close>

definition big_a :: FileEntry where
  "big_a = entry src_dir [lit ''a.py''] 20"

definition tiny_b :: FileEntry where
  "tiny_b = entry src_dir [lit ''b.py''] 5"

definition big_host :: host where
  "big_host =
     sample_host
       [(src_dir @ [lit ''a.py''], replicate 20 120),
        (src_dir @ [lit ''b.py''], replicate 5 121)]
       (Dir [(lit ''p'', Dir [(lit ''a.py'', File 20 0), (lit ''b.py'', File 5 0)])])"

text \<open>Two files whose names differ in case only, with different contents.\<close>

definition case_A :: FileEntry where
  "case_A = entry src_dir [lit ''A.py''] 1"

definition case_a :: FileEntry where
  "case_a = entry src_dir [lit ''a.py''] 1"

definition case_host :: host where
  "case_host =
     sample_host
       [(src_dir @ [lit ''A.py''], [49]),
        (src_dir @ [lit ''a.py''], [50])]
       (Dir [(lit ''p'', Dir [(lit ''A.py'', File 1 0), (lit ''a.py'', File 1 0)])])"

text \<open>A file with a NUL byte beside a text file; a file whose only NUL byte is its last.\<close>

definition nul_host :: host where
  "nul_host =
     sample_host
       [(src_dir @ [lit ''a.py''], [104, 0, 105]),
        (src_dir @ [lit ''b.py''], [104, 105])]
       (Dir [(lit ''p'', Dir [(lit ''a.py'', File 3 0), (lit ''b.py'', File 2 0)])])"

definition late_host :: host where
  "late_host =
     sample_host
       [(src_dir @ [lit ''late.py''], replicate 1024 120 @ [0])]
       (Dir [(lit ''p'', Dir [(lit ''late.py'', File 1025 0)])])"

text \<open>
  A hidden directory that holds a file, a hidden file, a file that a pattern matches, a
  hidden subdirectory and a subdirectory.
\<close>

definition cfg_dir :: path where
  "cfg_dir = [lit ''/'', lit ''.cfg'']"

definition hidden_host :: host where
  "hidden_host =
     sample_host
       [(cfg_dir @ [lit ''a.py''], [120]),
        (cfg_dir @ [lit ''.env.py''], [121]),
        (cfg_dir @ [lit ''x.pyc''], [122]),
        (cfg_dir @ [lit ''.git'', lit ''b.py''], [123]),
        (cfg_dir @ [lit ''sub'', lit ''c.py''], [124])]
       (Dir [(lit ''.cfg'',
              Dir [(lit ''a.py'', File 1 0),
                   (lit ''.env.py'', File 1 0),
                   (lit ''x.pyc'', File 1 0),
                   (lit ''.git'', Dir [(lit ''b.py'', File 1 0)]),
                   (lit ''sub'', Dir [(lit ''c.py'', File 1 0)])])])"

text \<open>
  The three small files again, but \<^verbatim>\<open>B.py\<close> can no longer be read when the bundler
  comes to it.
\<close>

definition racy_host :: host where
  "racy_host =
     small_host
       \<lparr>h_read_bytes :=
          files_of [(src_dir @ [lit ''a.py''], [104, 105, 10]), (src_dir @ [lit ''c.py''], [120])]\<rparr>"

section \<open>Properties\<close>

lemma lit_simps: "lit [] = []" "lit (c # cs) = of_char c # lit cs"
  by (simp_all add: lit_def)

lemmas sample_defs =
  sample_host_def files_of_def entry_def sort_entries_def sort_field_def ascii_lower_def
  str_path_def lit_def ROOT_def src_dir_def

lemmas small_defs = small_host_def small_a_def small_b_def small_c_def

lemmas big_defs = big_host_def big_a_def tiny_b_def

lemmas case_defs = case_host_def case_A_def case_a_def

lemmas hidden_defs = hidden_host_def cfg_dir_def name_of_def

lemmas walk_defs =
  walk_input_def node_at_def dir_pruned_def DOT_def startswith_def is_text_file_def
  SAMPLE_SIZE_def py_read_def Let_def

subsection \<open>The loop computes the included files and the warnings\<close>

lemma bundle_loop_eq:
  "bundle_loop h mf mt xs st =
     st\<lparr>b_out := b_out st @ blocks h (included_files h mf mt (b_total st) xs),
        b_warnings := b_warnings st @ bundle_warnings h mf mt (b_total st) xs,
        b_total := b_total st + raw_total (included_files h mf mt (b_total st) xs),
        b_included := b_included st + int (length (included_files h mf mt (b_total st) xs))\<rparr>"
proof (induction xs arbitrary: st)
  case Nil
  show ?case by (simp add: blocks_def raw_total_def)
next
  case (Cons fe rest)
  show ?case
    by (cases "h_read_bytes h (fe_path fe)") (simp_all add: Cons blocks_def raw_total_def)
qed

lemma bundle_files_eq:
  "bundle_files h entries mf mt =
     (let es = sort_entries h entries; inc = included_files h mf mt 0 es in
      (INTRO_TEMPLATE (h_now_iso h)
         (join (lit '', '') (sorted_list_of_set (set (map (\<lambda>e. str_path (fe_root e)) es))))
         (int (length inc)) (raw_total inc)
         @ NL @ blocks h inc,
       bundle_warnings h mf mt 0 es))"
  by (simp add: bundle_files_def bundle_loop_eq init_state_def Let_def)

lemma raw_total_nonneg: "0 \<le> raw_total inc"
  by (induction inc) (auto simp: raw_total_def)

lemma raw_total_Cons: "raw_total ((fe, raw) # inc) = int (length raw) + raw_total inc"
  by (simp add: raw_total_def)

lemma included_files_read:
  "(fe, raw) \<in> set (included_files h mf mt tot xs) \<Longrightarrow> h_read_bytes h (fe_path fe) = Inr raw"
  by (induction xs arbitrary: tot) (auto split: sum.splits if_splits)

subsection \<open>The budget of the total\<close>

lemma included_total_le:
  "0 < mt \<Longrightarrow> tot \<le> mt \<Longrightarrow> tot + raw_total (included_files h mf mt tot xs) \<le> mt"
proof (induction xs arbitrary: tot)
  case Nil
  then show ?case by (simp add: raw_total_def)
next
  case (Cons fe rest)
  show ?case
  proof (cases "h_read_bytes h (fe_path fe)")
    case (Inl e)
    then show ?thesis using Cons by simp
  next
    case (Inr raw)
    show ?thesis
    proof (cases "0 < mf \<and> mf < int (length raw)")
      case True
      then show ?thesis using Inr Cons by simp
    next
      case False
      show ?thesis
      proof (cases "mt < tot + int (length raw)")
        case True
        then show ?thesis using Inr False Cons.prems by (auto simp: raw_total_def)
      next
        case fits: False
        then have "tot + int (length raw) \<le> mt" by simp
        from Cons.IH [OF Cons.prems(1) this]
        show ?thesis using Inr False fits Cons.prems by (auto simp: raw_total_def)
      qed
    qed
  qed
qed

lemma included_unbounded:
  "mt \<le> 0 \<Longrightarrow> included_files h mf mt tot xs = readable_within h mf xs"
  by (induction xs arbitrary: tot) (auto split: sum.splits)

text \<open>
  C1. The loop's running total, which the preamble reports as \<^verbatim>\<open>Total bytes\<close>, is the
  sum of the raw lengths of the files whose blocks were written. When
  \<open>max_total_bytes\<close> is positive that sum is at most \<open>max_total_bytes\<close>, for every
  list of entries and every host. When it is zero or negative the test of the total is
  never taken: every entry that is read and is within the limit for one file is
  included.
\<close>

theorem total_bytes_within_budget:
  "let es = sort_entries h entries;
       inc = included_files h max_file_bytes max_total_bytes 0 es;
       st = bundle_loop h max_file_bytes max_total_bytes es init_state
   in b_out st = blocks h inc
      \<and> b_total st = raw_total inc
      \<and> fst (bundle_files h entries max_file_bytes max_total_bytes) =
          INTRO_TEMPLATE (h_now_iso h)
            (join (lit '', '') (sorted_list_of_set (set (map (\<lambda>e. str_path (fe_root e)) es))))
            (int (length inc)) (raw_total inc)
          @ NL @ blocks h inc
      \<and> (0 < max_total_bytes \<longrightarrow> raw_total inc \<le> max_total_bytes)
      \<and> (max_total_bytes \<le> 0 \<longrightarrow> inc = readable_within h max_file_bytes es)"
  using included_total_le [of max_total_bytes 0 h max_file_bytes "sort_entries h entries"]
    included_unbounded [of max_total_bytes h max_file_bytes 0 "sort_entries h entries"]
  by (simp add: Let_def bundle_loop_eq bundle_files_eq init_state_def)

text \<open>
  With a budget of five bytes the file of three bytes is included and the others are
  not; with the budget zero all three are.
\<close>

theorem total_bytes_within_budget_witness:
  "(0::int) < 5
   \<and> map fst (included_files small_host 0 5 0 (sort_entries small_host [small_c, small_b, small_a])) =
       [small_a]
   \<and> raw_total (included_files small_host 0 5 0 (sort_entries small_host [small_c, small_b, small_a]))
       \<le> 5
   \<and> (0::int) \<le> 0
   \<and> included_files small_host 0 0 0 (sort_entries small_host [small_c, small_b, small_a]) =
       readable_within small_host 0 (sort_entries small_host [small_c, small_b, small_a])
   \<and> map fst (readable_within small_host 0 (sort_entries small_host [small_c, small_b, small_a])) =
       [small_a, small_b, small_c]"
proof -
  have a: "map fst (included_files small_host 0 5 0 (sort_entries small_host [small_c, small_b, small_a])) =
       [small_a]"
    by (simp add: small_defs sample_defs)
  have b: "map fst (readable_within small_host 0 (sort_entries small_host [small_c, small_b, small_a])) =
       [small_a, small_b, small_c]"
    by (simp add: small_defs sample_defs)
  show ?thesis
    using a b
      total_bytes_within_budget [of small_host "[small_c, small_b, small_a]" 0 5]
      total_bytes_within_budget [of small_host "[small_c, small_b, small_a]" 0 0]
    by (simp add: Let_def)
qed

subsection \<open>The hard stop\<close>

lemma is_stop_warn_total: "is_stop_warning (warn_total fe mt)"
  by (simp add: is_stop_warning_def warn_total_def startswith_def)

lemma not_stop_warn_read: "\<not> is_stop_warning (warn_read fe e)"
  by (simp add: is_stop_warning_def warn_read_def startswith_def lit_def)

lemma not_stop_warn_file: "\<not> is_stop_warning (warn_file fe raw mf)"
  by (simp add: is_stop_warning_def warn_file_def startswith_def lit_def)

text \<open>
  While no entry of \<open>pre\<close> stops the loop, the loop on \<open>pre @ rest\<close> is the loop on
  \<open>pre\<close> followed by the loop on \<open>rest\<close>.
\<close>

lemma no_stop_append:
  "\<not> list_ex is_stop_warning (bundle_warnings h mf mt tot pre) \<Longrightarrow>
   included_files h mf mt tot (pre @ rest) =
     included_files h mf mt tot pre
       @ included_files h mf mt (tot + raw_total (included_files h mf mt tot pre)) rest
   \<and> bundle_warnings h mf mt tot (pre @ rest) =
     bundle_warnings h mf mt tot pre
       @ bundle_warnings h mf mt (tot + raw_total (included_files h mf mt tot pre)) rest"
proof (induction pre arbitrary: tot)
  case Nil
  show ?case by (simp add: raw_total_def)
next
  case (Cons fe pre)
  show ?case
  proof (cases "h_read_bytes h (fe_path fe)")
    case (Inl e)
    with Cons show ?thesis by simp
  next
    case (Inr raw)
    with Cons.prems Cons.IH [of tot] Cons.IH [of "tot + int (length raw)"]
    show ?thesis
      by (auto simp: raw_total_Cons is_stop_warn_total add.assoc split: if_splits)
  qed
qed

text \<open>
  C2, as amended. Let \<open>fe\<close> be an entry of the sorted list that is read, and let no
  entry before it have stopped the loop. If \<open>fe\<close> is within the limit for one file and
  its raw length added to the running total exceeds a positive \<open>max_total_bytes\<close>,
  then the whole run is the run on the entries before \<open>fe\<close> with one more warning, the
  one that names \<open>fe\<close>: neither \<open>fe\<close> nor any later entry is included or warned of,
  whatever its size, and that warning is the only one of its kind. If \<open>fe\<close> is over the
  limit for one file, then it is skipped, whatever its length is against the budget:
  the loop goes on with the entries after \<open>fe\<close> from the same running total, and the
  warning added, that of the limit for one file, is not one that stops the loop.
\<close>

theorem budget_hard_stop:
  assumes "0 < max_total_bytes"
    and "sort_entries h entries = pre @ fe # post"
    and "h_read_bytes h (fe_path fe) = Inr raw"
    and "\<not> list_ex is_stop_warning
           (b_warnings (bundle_loop h max_file_bytes max_total_bytes pre init_state))"
  shows "(\<not> (0 < max_file_bytes \<and> max_file_bytes < int (length raw))
          \<and> max_total_bytes
               < b_total (bundle_loop h max_file_bytes max_total_bytes pre init_state)
                   + int (length raw)
          \<longrightarrow>
            bundle_loop h max_file_bytes max_total_bytes (pre @ fe # post) init_state =
              (bundle_loop h max_file_bytes max_total_bytes pre init_state)
                \<lparr>b_warnings :=
                   b_warnings (bundle_loop h max_file_bytes max_total_bytes pre init_state)
                     @ [warn_total fe max_total_bytes]\<rparr>
            \<and> snd (bundle_files h entries max_file_bytes max_total_bytes) =
                b_warnings (bundle_loop h max_file_bytes max_total_bytes pre init_state)
                  @ [warn_total fe max_total_bytes]
            \<and> filter is_stop_warning (snd (bundle_files h entries max_file_bytes max_total_bytes)) =
                [warn_total fe max_total_bytes]
            \<and> included_files h max_file_bytes max_total_bytes 0 (sort_entries h entries) =
                included_files h max_file_bytes max_total_bytes 0 pre)
         \<and> (0 < max_file_bytes \<and> max_file_bytes < int (length raw)
          \<longrightarrow>
            bundle_loop h max_file_bytes max_total_bytes (pre @ fe # post) init_state =
              bundle_loop h max_file_bytes max_total_bytes post
                ((bundle_loop h max_file_bytes max_total_bytes pre init_state)
                   \<lparr>b_warnings :=
                      b_warnings (bundle_loop h max_file_bytes max_total_bytes pre init_state)
                        @ [warn_file fe raw max_file_bytes]\<rparr>)
            \<and> \<not> is_stop_warning (warn_file fe raw max_file_bytes)
            \<and> included_files h max_file_bytes max_total_bytes 0 (sort_entries h entries) =
                included_files h max_file_bytes max_total_bytes 0 pre
                  @ included_files h max_file_bytes max_total_bytes
                      (b_total (bundle_loop h max_file_bytes max_total_bytes pre init_state)) post)"
proof -
  let ?mf = max_file_bytes and ?mt = max_total_bytes
  let ?inc = "included_files h ?mf ?mt 0 pre"
  let ?W = "bundle_warnings h ?mf ?mt 0 pre"
  have nostop: "\<not> list_ex is_stop_warning ?W"
    using assms(4) by (simp add: bundle_loop_eq init_state_def)
  note app = no_stop_append [OF nostop, of "fe # post"]
  have stop: ?thesis if small: "\<not> (0 < ?mf \<and> ?mf < int (length raw))"
    and over: "?mt < raw_total ?inc + int (length raw)"
  proof -
    have tail_inc: "included_files h ?mf ?mt (0 + raw_total ?inc) (fe # post) = []"
      using assms(1,3) small over by auto
    have tail_W: "bundle_warnings h ?mf ?mt (0 + raw_total ?inc) (fe # post) = [warn_total fe ?mt]"
      using assms(1,3) small over by auto
    from app tail_inc tail_W
    have inc: "included_files h ?mf ?mt 0 (pre @ fe # post) = ?inc"
      and W: "bundle_warnings h ?mf ?mt 0 (pre @ fe # post) = ?W @ [warn_total fe ?mt]"
      by simp_all
    have filt: "filter is_stop_warning ?W = []"
      using nostop by (simp add: list_ex_iff filter_empty_conv)
    show ?thesis
      using inc W filt assms(2) small
      by (auto simp: bundle_loop_eq bundle_files_eq init_state_def Let_def is_stop_warn_total)
  qed
  have skip: ?thesis if big: "0 < ?mf \<and> ?mf < int (length raw)"
  proof -
    from big assms(3) have s1: "included_files h ?mf ?mt (0 + raw_total ?inc) (fe # post) =
        included_files h ?mf ?mt (0 + raw_total ?inc) post"
      and s2: "bundle_warnings h ?mf ?mt (0 + raw_total ?inc) (fe # post) =
        warn_file fe raw ?mf # bundle_warnings h ?mf ?mt (0 + raw_total ?inc) post"
      by simp_all
    from app s1 s2
    have inc: "included_files h ?mf ?mt 0 (pre @ fe # post) =
          ?inc @ included_files h ?mf ?mt (raw_total ?inc) post"
      and W: "bundle_warnings h ?mf ?mt 0 (pre @ fe # post) =
          ?W @ warn_file fe raw ?mf # bundle_warnings h ?mf ?mt (raw_total ?inc) post"
      by simp_all
    show ?thesis
      using inc W assms(2) big
      by (auto simp: bundle_loop_eq init_state_def not_stop_warn_file blocks_def raw_total_def)
  qed
  show ?thesis
  proof (cases "0 < ?mf \<and> ?mf < int (length raw)")
    case True
    then show ?thesis by (rule skip)
  next
    case small: False
    show ?thesis
    proof (cases "?mt < raw_total ?inc + int (length raw)")
      case True
      with small show ?thesis by (rule stop)
    next
      case False
      with small show ?thesis by (auto simp: bundle_loop_eq init_state_def)
    qed
  qed
qed

text \<open>
  Budget five: \<^verbatim>\<open>a.py\<close> (three bytes) is included, \<^verbatim>\<open>B.py\<close> (four bytes) stops the
  loop, and \<^verbatim>\<open>c.py\<close> (one byte), which would fit, is not included. Limit ten for one
  file and budget fifteen: \<^verbatim>\<open>a.py\<close> (twenty bytes) is skipped, the loop goes on, and
  \<^verbatim>\<open>b.py\<close> (five bytes) is included.
\<close>

theorem budget_hard_stop_witness:
  "(0::int) < 5
   \<and> sort_entries small_host [small_c, small_b, small_a] = [small_a] @ small_b # [small_c]
   \<and> h_read_bytes small_host (fe_path small_b) = Inr [104, 13, 10, 33]
   \<and> \<not> ((0::int) < 0 \<and> 0 < int (length [104, 13, 10, 33 :: byte]))
   \<and> \<not> list_ex is_stop_warning (b_warnings (bundle_loop small_host 0 5 [small_a] init_state))
   \<and> 5 < b_total (bundle_loop small_host 0 5 [small_a] init_state)
           + int (length [104, 13, 10, 33 :: byte])
   \<and> snd (bundle_files small_host [small_c, small_b, small_a] 0 5) = [warn_total small_b 5]
   \<and> map fst (included_files small_host 0 5 0 (sort_entries small_host [small_c, small_b, small_a])) =
       [small_a]
   \<and> (0::int) < 15
   \<and> sort_entries big_host [tiny_b, big_a] = [] @ big_a # [tiny_b]
   \<and> h_read_bytes big_host (fe_path big_a) = Inr (replicate 20 120)
   \<and> \<not> list_ex is_stop_warning (b_warnings (bundle_loop big_host 10 15 [] init_state))
   \<and> ((0::int) < 10 \<and> 10 < int (length (replicate 20 120 :: byte list)))
   \<and> 15 < b_total (bundle_loop big_host 10 15 [] init_state)
           + int (length (replicate 20 120 :: byte list))
   \<and> bundle_loop big_host 10 15 ([] @ big_a # [tiny_b]) init_state =
       bundle_loop big_host 10 15 [tiny_b]
         (init_state\<lparr>b_warnings := [warn_file big_a (replicate 20 120) 10]\<rparr>)
   \<and> map fst (included_files big_host 10 15 0 (sort_entries big_host [tiny_b, big_a])) = [tiny_b]"
proof -
  have h2: "sort_entries small_host [small_c, small_b, small_a] = [small_a] @ small_b # [small_c]"
    by (simp add: small_defs sample_defs)
  have h3: "h_read_bytes small_host (fe_path small_b) = Inr [104, 13, 10, 33]"
    by (simp add: small_defs sample_defs)
  have h4: "\<not> ((0::int) < 0 \<and> 0 < int (length [104, 13, 10, 33 :: byte]))"
    by simp
  have W: "bundle_warnings small_host 0 5 0 [small_a] = []"
    by (simp add: small_defs sample_defs)
  have I: "map fst (included_files small_host 0 5 0 [small_a]) = [small_a]"
    and T: "raw_total (included_files small_host 0 5 0 [small_a]) = 3"
    by (simp_all add: small_defs sample_defs raw_total_def)
  have h5: "\<not> list_ex is_stop_warning (b_warnings (bundle_loop small_host 0 5 [small_a] init_state))"
    using W by (simp add: bundle_loop_eq init_state_def)
  have h6: "5 < b_total (bundle_loop small_host 0 5 [small_a] init_state)
           + int (length [104, 13, 10, 33 :: byte])"
    using T by (simp add: bundle_loop_eq init_state_def)
  have h1: "(0::int) < 5" by simp
  from budget_hard_stop [OF h1 h2 h3 h5] h4 h6 W I
  have stop: "snd (bundle_files small_host [small_c, small_b, small_a] 0 5) = [warn_total small_b 5]"
    "map fst (included_files small_host 0 5 0 (sort_entries small_host [small_c, small_b, small_a])) =
       [small_a]"
    by (simp_all add: bundle_loop_eq init_state_def)
  have g1: "(0::int) < 15" by simp
  have g2: "sort_entries big_host [tiny_b, big_a] = [] @ big_a # [tiny_b]"
    by (simp add: big_defs sample_defs)
  have g3: "h_read_bytes big_host (fe_path big_a) = Inr (replicate 20 120)"
    and g3': "h_read_bytes big_host (fe_path tiny_b) = Inr (replicate 5 121)"
    by (simp_all add: big_defs sample_defs)
  have g4: "\<not> list_ex is_stop_warning (b_warnings (bundle_loop big_host 10 15 [] init_state))"
    by (simp add: init_state_def)
  have g5: "(0::int) < 10 \<and> 10 < int (length (replicate 20 120 :: byte list))"
    by simp
  have g6: "15 < b_total (bundle_loop big_host 10 15 [] init_state)
           + int (length (replicate 20 120 :: byte list))"
    by (simp add: init_state_def)
  have J: "map fst (included_files big_host 10 15 0 [tiny_b]) = [tiny_b]"
    using g3' by simp
  from budget_hard_stop [OF g1 g2 g3 g4] g5 J
  have skip: "bundle_loop big_host 10 15 ([] @ big_a # [tiny_b]) init_state =
       bundle_loop big_host 10 15 [tiny_b]
         (init_state\<lparr>b_warnings := [warn_file big_a (replicate 20 120) 10]\<rparr>)"
    "map fst (included_files big_host 10 15 0 (sort_entries big_host [tiny_b, big_a])) = [tiny_b]"
    by (simp_all add: init_state_def)
  from h1 h2 h3 h4 h5 h6 stop g1 g2 g3 g4 g5 g6 skip show ?thesis
    by blast
qed

text \<open>
  C2 as stated fails: with the limit for one file at ten bytes and the budget at
  fifteen, \<^verbatim>\<open>a.py\<close> (twenty bytes) is the first entry whose raw length added to the
  running total, zero, exceeds the budget. It is skipped for its own size, the loop
  goes on, \<^verbatim>\<open>b.py\<close> is included, and no warning says that the loop stopped.
\<close>

theorem budget_hard_stop_counterexample:
  "sort_entries big_host [big_a, tiny_b] = [big_a, tiny_b]
   \<and> h_read_bytes big_host (fe_path big_a) = Inr (replicate 20 120)
   \<and> (15::int) < b_total init_state + int (length (replicate 20 120 :: byte list))
   \<and> map fst (included_files big_host 10 15 0 (sort_entries big_host [big_a, tiny_b])) = [tiny_b]
   \<and> snd (bundle_files big_host [big_a, tiny_b] 10 15) = [warn_file big_a (replicate 20 120) 10]
   \<and> \<not> list_ex is_stop_warning (snd (bundle_files big_host [big_a, tiny_b] 10 15))"
proof -
  have s: "sort_entries big_host [big_a, tiny_b] = [big_a, tiny_b]"
    by (simp add: big_defs sample_defs)
  have r: "h_read_bytes big_host (fe_path big_a) = Inr (replicate 20 120)"
    and r': "h_read_bytes big_host (fe_path tiny_b) = Inr (replicate 5 121)"
    by (simp_all add: big_defs sample_defs)
  have i: "included_files big_host 10 15 0 [big_a, tiny_b] = [(tiny_b, replicate 5 121)]"
    and w: "bundle_warnings big_host 10 15 0 [big_a, tiny_b] = [warn_file big_a (replicate 20 120) 10]"
    using r r' by simp_all
  show ?thesis
    using s r i w by (simp add: bundle_files_eq Let_def init_state_def not_stop_warn_file)
qed

subsection \<open>The comparisons with the two limits\<close>

lemma warn_file_neq_total: "warn_file fe raw mf \<noteq> warn_total fe' mt"
  using is_stop_warn_total [of fe' mt] not_stop_warn_file [of fe raw mf] by auto

text \<open>
  C9. Let the loop reach an entry \<open>fe\<close> that is read, with the running
  total \<open>b_total st\<close>. Both comparisons are strict. An entry whose raw length is exactly
  a positive \<open>max_file_bytes\<close> does not get the warning of the limit for one file, and
  is included when the total admits it; an entry within the limit for one file that
  brings the running total to exactly a positive \<open>max_total_bytes\<close> does not stop the
  loop and is included. The entry is skipped exactly when its length is greater than a
  positive \<open>max_file_bytes\<close>, it stops the loop exactly when it is not skipped and the
  total would be greater than a positive \<open>max_total_bytes\<close>, and it is included exactly
  when it exceeds neither limit.
\<close>

theorem budget_comparisons_strict:
  assumes "h_read_bytes h (fe_path fe) = Inr raw"
  shows
    "((0 < max_file_bytes \<and> int (length raw) = max_file_bytes
        \<and> (max_total_bytes \<le> 0 \<or> b_total st + int (length raw) \<le> max_total_bytes))
      \<or> (0 < max_total_bytes \<and> b_total st + int (length raw) = max_total_bytes
        \<and> (max_file_bytes \<le> 0 \<or> int (length raw) \<le> max_file_bytes))
      \<longrightarrow> bundle_loop h max_file_bytes max_total_bytes (fe # rest) st =
            bundle_loop h max_file_bytes max_total_bytes rest
              (st\<lparr>b_out := b_out st @ render_block h fe raw,
                  b_total := b_total st + int (length raw),
                  b_included := b_included st + 1\<rparr>))
     \<and> (0 < max_file_bytes \<and> int (length raw) = max_file_bytes
          \<longrightarrow> b_warnings (bundle_loop h max_file_bytes max_total_bytes [fe] st)
                \<noteq> b_warnings st @ [warn_file fe raw max_file_bytes])
     \<and> (0 < max_total_bytes \<and> b_total st + int (length raw) = max_total_bytes
          \<longrightarrow> b_warnings (bundle_loop h max_file_bytes max_total_bytes [fe] st)
                \<noteq> b_warnings st @ [warn_total fe max_total_bytes])
     \<and> (b_warnings (bundle_loop h max_file_bytes max_total_bytes [fe] st) =
           b_warnings st @ [warn_file fe raw max_file_bytes])
         = (0 < max_file_bytes \<and> max_file_bytes < int (length raw))
     \<and> (b_warnings (bundle_loop h max_file_bytes max_total_bytes [fe] st) =
           b_warnings st @ [warn_total fe max_total_bytes])
         = (\<not> (0 < max_file_bytes \<and> max_file_bytes < int (length raw))
            \<and> 0 < max_total_bytes \<and> max_total_bytes < b_total st + int (length raw))
     \<and> (b_included (bundle_loop h max_file_bytes max_total_bytes [fe] st) = b_included st + 1)
         = ((max_file_bytes \<le> 0 \<or> int (length raw) \<le> max_file_bytes)
            \<and> (max_total_bytes \<le> 0 \<or> b_total st + int (length raw) \<le> max_total_bytes))"
  using assms warn_file_neq_total [of fe raw max_file_bytes fe max_total_bytes]
  by (auto simp: not_less)

text \<open>
  Both limits at three bytes: \<^verbatim>\<open>a.py\<close>, of exactly three bytes, is included and
  nothing is warned of.
\<close>

theorem budget_comparisons_strict_witness:
  "h_read_bytes small_host (fe_path small_a) = Inr [104, 105, 10]
   \<and> (0::int) < 3 \<and> int (length [104, 105, 10 :: byte]) = 3
   \<and> b_total init_state + int (length [104, 105, 10 :: byte]) = 3
   \<and> b_included (bundle_loop small_host 3 3 [small_a] init_state) = 1
   \<and> b_warnings (bundle_loop small_host 3 3 [small_a] init_state) = []"
proof -
  have r: "h_read_bytes small_host (fe_path small_a) = Inr [104, 105, 10]"
    by (simp add: small_defs sample_defs)
  have w: "bundle_warnings small_host 3 3 0 [small_a] = []"
    using r by simp
  show ?thesis
    using r w budget_comparisons_strict [OF r, of 3 3 init_state "[]"]
    by (simp add: init_state_def bundle_loop_eq)
qed

subsection \<open>The order of the output\<close>

lemma included_files_subset:
  "(a, b) \<in> set (included_files h mf mt tot xs) \<Longrightarrow> a \<in> set xs"
  by (induction xs arbitrary: tot) (auto split: sum.splits if_splits)

lemma included_files_sorted:
  "sorted (map f xs) \<Longrightarrow> sorted (map f (map fst (included_files h mf mt tot xs)))"
proof (induction xs arbitrary: tot)
  case Nil
  show ?case by simp
next
  case (Cons fe rest)
  from Cons.prems have rest: "sorted (map f rest)" and le: "\<forall>y \<in> set rest. f fe \<le> f y"
    by simp_all
  show ?case
    using Cons.IH [OF rest] le
    by (auto split: sum.splits dest: included_files_subset)
qed

lemma filter_distinct_key:
  "distinct (map f xs) \<Longrightarrow> k \<in> set xs \<Longrightarrow> filter (\<lambda>x. f x = f k) xs = [k]"
proof (induction xs)
  case Nil
  then show ?case by simp
next
  case (Cons x xs)
  show ?case
  proof (cases "x = k")
    case True
    with Cons.prems have "\<forall>y \<in> set xs. f y \<noteq> f k"
      by (metis distinct.simps(2) image_eqI list.simps(9) set_map)
    then have "filter (\<lambda>y. f y = f k) xs = []"
      by (simp add: filter_empty_conv)
    with True show ?thesis by simp
  next
    case False
    with Cons show ?thesis by auto
  qed
qed

text \<open>A stable sort of two permutations of a list with distinct keys gives one list.\<close>

lemma sort_key_permutation:
  assumes "mset xs = mset ys" and "distinct (map f xs)"
  shows "sort_key f xs = sort_key f ys"
proof (rule properties_for_sort_key)
  show "mset (sort_key f ys) = mset xs" using assms(1) by simp
  show "sorted (map f (sort_key f ys))" by simp
  have dy: "distinct (map f ys)"
    using assms by (metis mset_map mset_eq_imp_distinct_iff)
  fix k assume "k \<in> set (sort_key f ys)"
  then have ky: "k \<in> set ys" by simp
  then have kx: "k \<in> set xs" using assms(1) by (metis mset_eq_setD)
  have "filter (\<lambda>x. f x = f k) (sort_key f ys) = filter (\<lambda>x. f x = f k) ys"
    by (rule sort_key_stable)
  also have "\<dots> = [k]" using dy ky by (rule filter_distinct_key)
  also have "\<dots> = filter (\<lambda>x. f x = f k) xs"
    using assms(2) kx by (rule filter_distinct_key [symmetric])
  finally show "filter (\<lambda>x. f k = f x) (sort_key f ys) = filter (\<lambda>x. f k = f x) xs"
    by (simp add: eq_commute)
qed

lemma bundle_files_permutation:
  assumes "mset entries' = mset entries" and "distinct (map (sort_field h) entries)"
  shows "bundle_files h entries' mf mt = bundle_files h entries mf mt"
proof -
  have "sort_entries h entries = sort_entries h entries'"
    unfolding sort_entries_def
    using assms by (intro sort_key_permutation) simp_all
  then show ?thesis by (simp add: bundle_files_def)
qed

text \<open>
  C4, as amended. The loop runs over the entries sorted by the lower-cased string of
  their relative path, a permutation of the entries given; the blocks written are those
  of the included files in that order, so the keys of the included files ascend. When
  no two entries have the same key, the result is the same for every order in which the
  same entries are given. Entries with equal keys keep the order in which they were
  given: the sort is stable.
\<close>

theorem output_order:
  "mset (sort_entries h entries) = mset entries
   \<and> sorted (map (sort_field h) (sort_entries h entries))
   \<and> sorted (map (sort_field h)
        (map fst (included_files h max_file_bytes max_total_bytes 0 (sort_entries h entries))))
   \<and> b_out (bundle_loop h max_file_bytes max_total_bytes (sort_entries h entries) init_state) =
       blocks h (included_files h max_file_bytes max_total_bytes 0 (sort_entries h entries))
   \<and> (\<forall>entries'. mset entries' = mset entries \<and> distinct (map (sort_field h) entries) \<longrightarrow>
         bundle_files h entries' max_file_bytes max_total_bytes =
         bundle_files h entries max_file_bytes max_total_bytes)
   \<and> filter (\<lambda>e. sort_field h e = k) (sort_entries h entries) =
       filter (\<lambda>e. sort_field h e = k) entries"
proof -
  have e: "filter (\<lambda>e. sort_field h e = k) (sort_entries h entries) =
       filter (\<lambda>e. sort_field h e = k) entries"
    unfolding sort_entries_def by (rule sort_key_stable)
  have a: "mset (sort_entries h entries) = mset entries"
    by (simp add: sort_entries_def)
  have b: "sorted (map (sort_field h) (sort_entries h entries))"
    by (simp add: sort_entries_def)
  have c: "sorted (map (sort_field h)
        (map fst (included_files h max_file_bytes max_total_bytes 0 (sort_entries h entries))))"
    using b by (rule included_files_sorted)
  have d: "b_out (bundle_loop h max_file_bytes max_total_bytes (sort_entries h entries) init_state) =
       blocks h (included_files h max_file_bytes max_total_bytes 0 (sort_entries h entries))"
    by (simp add: bundle_loop_eq init_state_def)
  show ?thesis
    using a b c d e bundle_files_permutation [of _ entries h] by blast
qed

text \<open>
  The three small files have distinct keys: given in either order they are bundled
  alike, in the order \<^verbatim>\<open>a.py\<close>, \<^verbatim>\<open>B.py\<close>, \<^verbatim>\<open>c.py\<close>.
\<close>

theorem output_order_witness:
  "mset [small_a, small_b, small_c] = mset [small_c, small_b, small_a]
   \<and> distinct (map (sort_field small_host) [small_c, small_b, small_a])
   \<and> bundle_files small_host [small_a, small_b, small_c] 0 5 =
       bundle_files small_host [small_c, small_b, small_a] 0 5
   \<and> map (sort_field small_host) (sort_entries small_host [small_c, small_b, small_a]) =
       [lit ''a.py'', lit ''b.py'', lit ''c.py'']"
proof -
  have m: "mset [small_a, small_b, small_c] = mset [small_c, small_b, small_a]"
    by (simp add: add_mset_commute)
  have d: "distinct (map (sort_field small_host) [small_c, small_b, small_a])"
    by (simp add: small_defs sample_defs)
  have k: "map (sort_field small_host) (sort_entries small_host [small_c, small_b, small_a]) =
       [lit ''a.py'', lit ''b.py'', lit ''c.py'']"
    by (simp add: small_defs sample_defs)
  from output_order [of small_host "[small_c, small_b, small_a]" 0 5] m d
  have "bundle_files small_host [small_a, small_b, small_c] 0 5 =
       bundle_files small_host [small_c, small_b, small_a] 0 5"
    by blast
  with m d k show ?thesis by blast
qed

text \<open>The first character of the path in the header of a block.\<close>

lemma path_char:
  "(render_block h fe raw @ tl_text) ! 93 = hd (replace [92] ROOT (str_path (fe_rel fe)) @ DQ)"
  by (simp add: render_block_def Let_def HEADER_LINE_def NL_def build_header_def quoted_def
      lit_def DQ_def nth_append hd_append hd_conv_nth)

text \<open>
  C4 as stated fails in its last part: \<^verbatim>\<open>A.py\<close> and \<^verbatim>\<open>a.py\<close> have the same key, so
  each order in which the two are given is already sorted and is kept. The same two
  candidates, given in the two orders, are written in two orders and the two texts
  differ.
\<close>

theorem output_order_counterexample:
  "mset [case_a, case_A] = mset [case_A, case_a]
   \<and> map fst (included_files case_host 0 0 0 (sort_entries case_host [case_A, case_a])) =
       [case_A, case_a]
   \<and> map fst (included_files case_host 0 0 0 (sort_entries case_host [case_a, case_A])) =
       [case_a, case_A]
   \<and> fst (bundle_files case_host [case_A, case_a] 0 0)
       \<noteq> fst (bundle_files case_host [case_a, case_A] 0 0)"
proof -
  have s1: "sort_entries case_host [case_A, case_a] = [case_A, case_a]"
    and s2: "sort_entries case_host [case_a, case_A] = [case_a, case_A]"
    by (simp_all add: case_defs sample_defs)
  have r1: "h_read_bytes case_host (fe_path case_A) = Inr [49]"
    and r2: "h_read_bytes case_host (fe_path case_a) = Inr [50]"
    by (simp_all add: case_defs sample_defs)
  have roots: "fe_root case_A = src_dir" "fe_root case_a = src_dir"
    by (simp_all add: case_defs entry_def)
  have "(render_block case_host case_A [49] @ render_block case_host case_a [50]) ! 93 = 65"
    unfolding path_char by (simp add: case_defs entry_def str_path_def lit_def ROOT_def)
  moreover
  have "(render_block case_host case_a [50] @ render_block case_host case_A [49]) ! 93 = 97"
    unfolding path_char by (simp add: case_defs entry_def str_path_def lit_def ROOT_def)
  ultimately have "render_block case_host case_A [49] @ render_block case_host case_a [50]
      \<noteq> render_block case_host case_a [50] @ render_block case_host case_A [49]"
    by auto
  then have "fst (bundle_files case_host [case_A, case_a] 0 0)
       \<noteq> fst (bundle_files case_host [case_a, case_A] 0 0)"
    using r1 r2 by (simp add: bundle_files_eq Let_def s1 s2 roots blocks_def raw_total_def)
  then show ?thesis
    using r1 r2 by (simp add: s1 s2 add_mset_commute)
qed

subsection \<open>The blocks\<close>

lemma replace_CR: "replace CR NL s = map (\<lambda>c. if c = 13 then 10 else c) s"
  by (induction s) (auto simp: CR_def NL_def)

lemma normalise_newlines_spec: "normalise_newlines s = newlines_spec s"
proof (induction s rule: newlines_spec.induct)
  case 1
  show ?case by (simp add: normalise_newlines_def)
next
  case (2 c)
  show ?case by (simp add: normalise_newlines_def replace_CR CR_def NL_def)
next
  case (3 c d cs)
  then show ?case
    by (auto simp: normalise_newlines_def replace_CR CR_def NL_def)
qed

lemma no_CR: "13 \<notin> set (normalise_newlines s)"
  by (auto simp: normalise_newlines_def replace_CR)

lemma block_body_ends: "endswith (block_body h raw) NL"
  by (auto simp: block_body_def Let_def endswith_def suffix_def)

lemma block_body_no_CR: "13 \<notin> set (block_body h raw)"
  using no_CR by (auto simp: block_body_def Let_def NL_def)

lemma render_block_eq:
  "render_block h fe raw =
     HEADER_LINE @ NL
     @ lit ''<<<FILE ''
       @ quoted ''path'' (replace [92] ROOT (str_path (fe_rel fe))) @ lit '' ''
       @ quoted ''abspath'' (str_path (fe_path fe)) @ lit '' ''
       @ bare ''size'' (int (length raw)) @ lit '' ''
       @ quoted ''mtime'' (h_isoformat h (fe_mtime fe)) @ lit '' ''
       @ quoted ''sha256'' (sha256_bytes h raw) @ lit '' ''
       @ quoted ''lang'' (infer_lang h (suffix_of (fe_path fe)))
       @ lit ''>>>'' @ NL
     @ FENCE @ infer_lang h (suffix_of (fe_path fe)) @ NL
     @ block_body h raw
     @ FENCE @ NL
     @ lit ''<<<END FILE>>>'' @ NL
     @ HEADER_LINE @ NL @ NL"
  by (simp add: render_block_def build_header_def block_body_def Let_def)

text \<open>
  C5. The text written is the blocks of the included files. Each included file comes
  with the bytes \<open>raw\<close> that were read for it, and in the header of its block the item
  \<^verbatim>\<open>sha256\<close> is the digest \<open>sha256_bytes h raw\<close> of those bytes and the item
  \<^verbatim>\<open>size\<close> is their number: both are taken from the bytes as read, not from the
  decoded and normalised text of the body.
\<close>

theorem header_digest_and_size:
  "b_out (bundle_loop h max_file_bytes max_total_bytes (sort_entries h entries) init_state) =
     concat (map
       (\<lambda>(fe, raw).
          HEADER_LINE @ NL
          @ lit ''<<<FILE ''
            @ quoted ''path'' (replace [92] ROOT (str_path (fe_rel fe))) @ lit '' ''
            @ quoted ''abspath'' (str_path (fe_path fe)) @ lit '' ''
            @ bare ''size'' (int (length raw)) @ lit '' ''
            @ quoted ''mtime'' (h_isoformat h (fe_mtime fe)) @ lit '' ''
            @ quoted ''sha256'' (sha256_bytes h raw) @ lit '' ''
            @ quoted ''lang'' (infer_lang h (suffix_of (fe_path fe)))
            @ lit ''>>>'' @ NL
          @ FENCE @ infer_lang h (suffix_of (fe_path fe)) @ NL
          @ block_body h raw
          @ FENCE @ NL
          @ lit ''<<<END FILE>>>'' @ NL
          @ HEADER_LINE @ NL @ NL)
       (included_files h max_file_bytes max_total_bytes 0 (sort_entries h entries)))
   \<and> (\<forall>(fe, raw) \<in> set (included_files h max_file_bytes max_total_bytes 0 (sort_entries h entries)).
         h_read_bytes h (fe_path fe) = Inr raw)
   \<and> sha256_bytes h = h_sha256_hex h"
proof -
  have "\<forall>(fe, raw) \<in> set (included_files h max_file_bytes max_total_bytes 0 (sort_entries h entries)).
         h_read_bytes h (fe_path fe) = Inr raw"
    using included_files_read by fastforce
  moreover have "sha256_bytes h = h_sha256_hex h"
    by (rule ext) (simp add: sha256_bytes_def)
  moreover have "blocks h inc = concat (map
       (\<lambda>(fe, raw).
          HEADER_LINE @ NL
          @ lit ''<<<FILE ''
            @ quoted ''path'' (replace [92] ROOT (str_path (fe_rel fe))) @ lit '' ''
            @ quoted ''abspath'' (str_path (fe_path fe)) @ lit '' ''
            @ bare ''size'' (int (length raw)) @ lit '' ''
            @ quoted ''mtime'' (h_isoformat h (fe_mtime fe)) @ lit '' ''
            @ quoted ''sha256'' (sha256_bytes h raw) @ lit '' ''
            @ quoted ''lang'' (infer_lang h (suffix_of (fe_path fe)))
            @ lit ''>>>'' @ NL
          @ FENCE @ infer_lang h (suffix_of (fe_path fe)) @ NL
          @ block_body h raw
          @ FENCE @ NL
          @ lit ''<<<END FILE>>>'' @ NL
          @ HEADER_LINE @ NL @ NL) inc)" for inc
    unfolding blocks_def render_block_eq ..
  ultimately show ?thesis
    by (simp add: bundle_loop_eq init_state_def)
qed

text \<open>
  The file \<^verbatim>\<open>B.py\<close> of the sample is included with its four bytes, a carriage return
  among them: the size written is four and the digest is that of the four bytes.
\<close>

theorem header_digest_and_size_witness:
  "(small_b, [104, 13, 10, 33]) \<in> set (included_files small_host 0 0 0
       (sort_entries small_host [small_c, small_b, small_a]))
   \<and> h_read_bytes small_host (fe_path small_b) = Inr [104, 13, 10, 33]
   \<and> bare ''size'' (int (length [104, 13, 10, 33 :: byte])) = lit ''size=4''
   \<and> quoted ''sha256'' (sha256_bytes small_host [104, 13, 10, 33]) =
       lit ''sha256='' @ DQ @ lit ''digest-of-4'' @ DQ"
proof -
  have m: "(small_b, [104, 13, 10, 33]) \<in> set (included_files small_host 0 0 0
       (sort_entries small_host [small_c, small_b, small_a]))"
    by (simp add: small_defs sample_defs)
  from header_digest_and_size [of small_host 0 0 "[small_c, small_b, small_a]"] m
  have r: "h_read_bytes small_host (fe_path small_b) = Inr [104, 13, 10, 33]"
    by blast
  have s: "bare ''size'' (int (length [104, 13, 10, 33 :: byte])) = lit ''size=4''"
    by (simp add: bare_def str_int_def dec_nat.simps lit_def)
  have d: "quoted ''sha256'' (sha256_bytes small_host [104, 13, 10, 33]) =
       lit ''sha256='' @ DQ @ lit ''digest-of-4'' @ DQ"
    by (simp add: quoted_def sha256_bytes_def small_host_def sample_host_def str_int_def
        dec_nat.simps lit_def)
  from m r s d show ?thesis by blast
qed

text \<open>
  C6. The body of every block written is the text \<open>h_decode h raw\<close>, the bytes decoded
  with replacement (a decoding that returns a string for all bytes), in which every
  carriage return with a line feed after it and then every other carriage return was
  replaced by a line feed, followed by a line feed when that text does not end with
  one. So no carriage return is left in the body, and the body ends with a line feed,
  which stands right before the closing fence.
\<close>

theorem body_normalised:
  "b_out (bundle_loop h max_file_bytes max_total_bytes (sort_entries h entries) init_state) =
     concat (map
       (\<lambda>(fe, raw).
          HEADER_LINE @ NL
          @ build_header h fe (infer_lang h (suffix_of (fe_path fe))) (sha256_bytes h raw)
              (int (length raw))
          @ FENCE @ infer_lang h (suffix_of (fe_path fe)) @ NL
          @ block_body h raw
          @ FENCE @ NL
          @ lit ''<<<END FILE>>>'' @ NL
          @ HEADER_LINE @ NL @ NL)
       (included_files h max_file_bytes max_total_bytes 0 (sort_entries h entries)))
   \<and> normalise_newlines s = newlines_spec s
   \<and> block_body h raw =
       (if endswith (newlines_spec (h_decode h raw)) NL
        then newlines_spec (h_decode h raw)
        else newlines_spec (h_decode h raw) @ NL)
   \<and> endswith (block_body h raw) NL
   \<and> 13 \<notin> set (block_body h raw)"
proof -
  have "blocks h inc = concat (map
       (\<lambda>(fe, raw).
          HEADER_LINE @ NL
          @ build_header h fe (infer_lang h (suffix_of (fe_path fe))) (sha256_bytes h raw)
              (int (length raw))
          @ FENCE @ infer_lang h (suffix_of (fe_path fe)) @ NL
          @ block_body h raw
          @ FENCE @ NL
          @ lit ''<<<END FILE>>>'' @ NL
          @ HEADER_LINE @ NL @ NL) inc)" for inc
    unfolding blocks_def render_block_eq by (simp add: build_header_def Let_def)
  moreover have "block_body h raw =
       (if endswith (newlines_spec (h_decode h raw)) NL
        then newlines_spec (h_decode h raw)
        else newlines_spec (h_decode h raw) @ NL)"
    by (simp add: block_body_def Let_def normalise_newlines_spec)
  ultimately show ?thesis
    using block_body_ends [of h raw] block_body_no_CR [of h raw]
    by (simp add: bundle_loop_eq init_state_def normalise_newlines_spec)
qed

text \<open>
  The four bytes of \<^verbatim>\<open>B.py\<close> are \<^verbatim>\<open>h\<close>, a carriage return, a line feed and \<^verbatim>\<open>!\<close>:
  its body is \<^verbatim>\<open>h\<close>, a line feed, \<^verbatim>\<open>!\<close> and a line feed that was added.
\<close>

theorem body_normalised_witness:
  "h_decode small_host [104, 13, 10, 33] = [104, 13, 10, 33]
   \<and> \<not> endswith (newlines_spec [104, 13, 10, 33]) NL
   \<and> block_body small_host [104, 13, 10, 33] = [104, 10, 33, 10]
   \<and> normalise_newlines [13, 97, 13, 10, 13] = [10, 97, 10, 10]"
proof -
  have d: "h_decode small_host [104, 13, 10, 33] = [104, 13, 10, 33]"
    by (simp add: small_host_def sample_host_def)
  have e: "\<not> endswith (newlines_spec [104, 13, 10, 33]) NL"
    by (simp add: endswith_def NL_def suffix_to_prefix)
  from body_normalised [of small_host 0 0 "[]" "[13, 97, 13, 10, 13]" "[104, 13, 10, 33]"]
  have "block_body small_host [104, 13, 10, 33] = [104, 10, 33, 10]"
    and "normalise_newlines [13, 97, 13, 10, 13] = [10, 97, 10, 10]"
    using d e by (simp_all add: NL_def endswith_def suffix_to_prefix)
  with d e show ?thesis by blast
qed

subsection \<open>The classifier\<close>

text \<open>
  C7. For a sample size that is not negative, \<open>is_text_file\<close> looks at the first
  \<open>sample_size\<close> bytes at most, and it is false exactly when the file cannot be opened
  and read or one of those bytes is zero. A read that fails gives \<open>False\<close>, not an error: the
  function has a value for every host and every path. Two files that agree on their
  first \<open>sample_size\<close> bytes are classified alike. The traverser calls it with the
  sample size \<open>SAMPLE_SIZE\<close>, 1024.
\<close>

theorem classifier_sample:
  assumes "0 \<le> sample_size"
  shows "(is_text_file h p sample_size = False) =
           ((\<exists>e. h_open h p = Inl e)
            \<or> (\<exists>raw. h_open h p = Inr raw
                  \<and> (\<exists>i < min (nat sample_size) (length raw). raw ! i = 0)))
         \<and> (\<forall>raw. h_open h p = Inr raw \<longrightarrow>
               (\<exists>chunk. py_read sample_size raw = Inr chunk
                  \<and> length chunk \<le> nat sample_size
                  \<and> prefix chunk raw
                  \<and> is_text_file h p sample_size = (0 \<notin> set chunk)))
         \<and> (\<forall>raw tl_bytes tl_bytes'. h_open h p = Inr (raw @ tl_bytes)
               \<and> h_open h' p' = Inr (raw @ tl_bytes') \<and> int (length raw) = sample_size \<longrightarrow>
               is_text_file h p sample_size = is_text_file h' p' sample_size)
         \<and> SAMPLE_SIZE = 1024"
proof -
  have a: "(0 \<in> set (take n raw)) = (\<exists>i < min n (length raw). raw ! i = 0)"
    for n and raw :: "byte list"
    by (auto simp: in_set_conv_nth)
  show ?thesis
    using assms
    by (auto simp: is_text_file_def py_read_def a take_is_prefix SAMPLE_SIZE_def split: sum.splits)
qed

text \<open>
  A sample size below \<open>-1\<close> makes the read raise, which the classifier turns into
  \<open>False\<close>; the sample size \<open>-1\<close> reads the whole file.
\<close>

lemma is_text_file_negative_size:
  "(sample_size < - 1 \<longrightarrow> is_text_file h p sample_size = False)
   \<and> (h_open h p = Inr raw \<longrightarrow> is_text_file h p (- 1) = (0 \<notin> set raw))"
  by (auto simp: is_text_file_def py_read_def split: sum.splits)

text \<open>
  A NUL byte among the first 1024 bytes: not text. A NUL byte as byte 1025 only: text.
  No such file: not text.
\<close>

theorem classifier_sample_witness:
  "(0::int) \<le> SAMPLE_SIZE
   \<and> h_open nul_host (src_dir @ [lit ''a.py'']) = Inr [104, 0, 105]
   \<and> is_text_file nul_host (src_dir @ [lit ''a.py'']) SAMPLE_SIZE = False
   \<and> h_open late_host (src_dir @ [lit ''late.py'']) = Inr (replicate 1024 120 @ [0])
   \<and> is_text_file late_host (src_dir @ [lit ''late.py'']) SAMPLE_SIZE = True
   \<and> h_open nul_host (src_dir @ [lit ''none.py'']) = Inl (lit ''No such file'')
   \<and> is_text_file nul_host (src_dir @ [lit ''none.py'']) SAMPLE_SIZE = False"
proof -
  have z: "(0::int) \<le> SAMPLE_SIZE" by (simp add: SAMPLE_SIZE_def)
  have r1: "h_open nul_host (src_dir @ [lit ''a.py'']) = Inr [104, 0, 105]"
    and r2: "h_open late_host (src_dir @ [lit ''late.py'']) = Inr (replicate 1024 120 @ [0])"
    and r3: "h_open nul_host (src_dir @ [lit ''none.py'']) = Inl (lit ''No such file'')"
    by (simp_all add: nul_host_def late_host_def sample_defs)
  from classifier_sample [OF z, of nul_host "src_dir @ [lit ''a.py'']"] r1
  have c1: "is_text_file nul_host (src_dir @ [lit ''a.py'']) SAMPLE_SIZE = False"
    by (simp add: py_read_def SAMPLE_SIZE_def)
  from classifier_sample [OF z, of late_host "src_dir @ [lit ''late.py'']"] r2
  have c2: "is_text_file late_host (src_dir @ [lit ''late.py'']) SAMPLE_SIZE = True"
    by (simp add: py_read_def SAMPLE_SIZE_def)
  from classifier_sample [OF z, of nul_host "src_dir @ [lit ''none.py'']"] r3
  have c3: "is_text_file nul_host (src_dir @ [lit ''none.py'']) SAMPLE_SIZE = False"
    by simp
  from z r1 r2 r3 c1 c2 c3 show ?thesis by blast
qed

subsection \<open>The matcher\<close>

lemma matches_any_iff:
  "matches_any h name patterns = (\<exists>pat \<in> set patterns. pattern_matches h name pat)"
  by (induction patterns) (auto simp: pattern_matches_def)

subsection \<open>The walk yields the files kept\<close>

lemma file_entries_eq:
  "file_entries h ex hid p dirpath e =
     map (mk_entry p dirpath) (filter (keeps h ex hid dirpath) (direct_file e))"
  by (cases e rule: direct_file.cases) (auto simp: mk_entry_def keeps_def Let_def)

lemma concat_file_entries:
  "concat (map (file_entries h ex hid p dirpath) es) =
     map (mk_entry p dirpath) (filter (keeps h ex hid dirpath) (concat (map direct_file es)))"
  by (induction es) (simp_all add: file_entries_eq)

lemma walk_eq:
  "walk h ex hid p dirpath es =
     map (mk_entry p dirpath) (filter (keeps h ex hid dirpath) (all_files es))"
  and walk_dirs_eq:
  "walk_dirs h ex hid p dirpath es =
     map (mk_entry p dirpath) (filter (keeps h ex hid dirpath) (sub_files es))"
proof (induction h ex hid p dirpath es and h ex hid p dirpath es rule: walk_walk_dirs.induct)
  case (1 h ex hid p dirpath es)
  then show ?case by (simp add: concat_file_entries)
next
  case (2 h ex hid p dirpath)
  show ?case by simp
next
  case (3 h ex hid p dirpath d sz mt es)
  then show ?case by simp
next
  case (4 h ex hid p dirpath d sub es)
  have a: "map (mk_entry p dirpath) (filter (keeps h ex hid dirpath)
             (map (\<lambda>(r, sz, mt). (d # r, sz, mt)) (all_files sub))) =
           (if dir_pruned h ex hid dirpath d then []
            else map (mk_entry p (dirpath @ [d])) (filter (keeps h ex hid (dirpath @ [d])) (all_files sub)))"
    by (induction "all_files sub")
       (auto simp: mk_entry_def keeps_def dir_pruned_def filter_map o_def split_def filter_empty_conv)
  have "walk_dirs h ex hid p dirpath ((d, Dir sub) # es) =
          (if dir_pruned h ex hid dirpath d then []
           else map (mk_entry p (dirpath @ [d])) (filter (keeps h ex hid (dirpath @ [d])) (all_files sub)))
          @ map (mk_entry p dirpath) (filter (keeps h ex hid dirpath) (sub_files es))"
    using 4 by (simp del: walk.simps all_files.simps)
  also have "\<dots> = map (mk_entry p dirpath) (filter (keeps h ex hid dirpath) (sub_files ((d, Dir sub) # es)))"
    by (simp only: a [symmetric] sub_files.simps filter_append map_append)
  finally show ?case .
qed





lemma passes_set_cong:
  "set ex' = set ex \<Longrightarrow> passes h ex' hid dirpath rel = passes h ex hid dirpath rel"
  by (induction rel arbitrary: dirpath) (simp_all add: matches_any_iff)

lemma walk_input_set_cong:
  assumes "set ex' = set ex"
  shows "walk_input h q ex' hid = walk_input h q ex hid"
proof (cases "node_at h q")
  case None
  then show ?thesis by (simp add: walk_input_def)
next
  case (Some n)
  show ?thesis
  proof (cases n)
    case (File sz mt)
    with Some assms show ?thesis
      by (simp add: walk_input_def matches_any_iff)
  next
    case (Dir es)
    have "keeps h ex' hid q = keeps h ex hid q"
      by (simp add: keeps_def passes_set_cong [OF assms])
    with Some Dir show ?thesis
      by (simp add: walk_input_def walk_eq del: walk.simps)
  qed
qed

lemma walk_inputs_set_cong:
  assumes "set ex' = set ex"
  shows "walk_inputs h paths ex' hid = walk_inputs h paths ex hid"
proof (induction paths)
  case Nil
  show ?case by simp
next
  case (Cons q paths)
  from walk_input_set_cong [OF assms, of h "h_resolve h q" hid] Cons
  show ?case by simp
qed

lemma walk_input_text:
  assumes "e \<in> set (walk_input h q ex hid)"
  shows "is_text_file h (fe_path e) SAMPLE_SIZE"
proof (cases "node_at h q")
  case None
  with assms show ?thesis by (simp add: walk_input_def)
next
  case (Some n)
  show ?thesis
  proof (cases n)
    case (File sz mt)
    with Some assms show ?thesis
      by (auto simp: walk_input_def split: if_splits)
  next
    case (Dir es)
    with Some assms have "e \<in> set (walk h ex hid q q es)"
      by (simp add: walk_input_def del: walk.simps)
    then show ?thesis
      unfolding walk_eq by (auto simp: mk_entry_def keeps_def simp del: all_files.simps)
  qed
qed

lemma walk_inputs_text:
  "e \<in> set (walk_inputs h paths ex hid) \<Longrightarrow> is_text_file h (fe_path e) SAMPLE_SIZE"
  by (induction paths) (auto dest: walk_input_text)

lemma filter_by_ext_subset: "set (filter_by_ext h entries exts) \<subseteq> set entries"
  by (auto simp: filter_by_ext_def Let_def split: option.splits if_splits)

subsection \<open>Exclusion by the patterns\<close>

text \<open>
  C8. \<open>matches_any\<close> is true exactly when some pattern of the list matches the name, so
  it depends on the set of the patterns only: not on their order, nor on repetitions.
  The traverser calls it in three places (lines 140, 152 and 160), each time on the
  bare name and on the full path. A subdirectory is pruned exactly when it is hidden or
  some pattern matches one of the two. A file of a directory walked is yielded exactly
  when it is not hidden, no pattern matches one of the two, and the classifier accepts
  it; so is a file given as an input path, with the test of hidden names on the parts
  of its path. Hence the entries that \<open>walk_inputs\<close> yields are the same for two lists
  of patterns with the same set, and for any permutation of the list.
\<close>

theorem exclusion_match:
  "matches_any h name patterns = (\<exists>pat \<in> set patterns. pattern_matches h name pat)
   \<and> (set patterns' = set patterns \<longrightarrow> matches_any h name patterns' = matches_any h name patterns)
   \<and> (mset patterns' = mset patterns \<longrightarrow> matches_any h name patterns' = matches_any h name patterns)
   \<and> (matches_any h name patterns \<or> matches_any h full patterns) =
       (\<exists>pat \<in> set patterns. pattern_matches h name pat \<or> pattern_matches h full pat)
   \<and> dir_pruned h patterns include_hidden dirpath d =
       ((\<not> include_hidden \<and> startswith d DOT)
        \<or> (\<exists>pat \<in> set patterns.
              pattern_matches h d pat \<or> pattern_matches h (str_path (dirpath @ [d])) pat))
   \<and> file_entries h patterns include_hidden p dirpath (f, File sz mt) =
       (if (\<not> include_hidden \<and> startswith f DOT)
           \<or> (\<exists>pat \<in> set patterns.
                 pattern_matches h f pat \<or> pattern_matches h (str_path (dirpath @ [f])) pat)
           \<or> \<not> is_text_file h (dirpath @ [f]) SAMPLE_SIZE
        then []
        else [\<lparr>fe_root = p, fe_path = dirpath @ [f], fe_rel = drop (length p) (dirpath @ [f]),
               fe_size = sz, fe_mtime = mt\<rparr>])
   \<and> (node_at h q = Some (File sz mt) \<longrightarrow>
        walk_input h q patterns include_hidden =
          (if (\<not> include_hidden \<and> list_ex (\<lambda>part. startswith part DOT) (tl q))
              \<or> (\<exists>pat \<in> set patterns.
                    pattern_matches h (name_of q) pat \<or> pattern_matches h (str_path q) pat)
              \<or> \<not> is_text_file h q SAMPLE_SIZE
           then []
           else [\<lparr>fe_root = parent q, fe_path = q, fe_rel = [name_of q],
                  fe_size = sz, fe_mtime = mt\<rparr>]))
   \<and> (set patterns' = set patterns \<longrightarrow>
        walk_inputs h paths patterns' include_hidden = walk_inputs h paths patterns include_hidden)
   \<and> (mset patterns' = mset patterns \<longrightarrow>
        walk_inputs h paths patterns' include_hidden = walk_inputs h paths patterns include_hidden)"
proof -
  have ms: "mset patterns' = mset patterns \<longrightarrow> set patterns' = set patterns"
    by (auto dest: mset_eq_setD)
  have c1: "matches_any h name patterns = (\<exists>pat \<in> set patterns. pattern_matches h name pat)"
    by (rule matches_any_iff)
  have c2: "set patterns' = set patterns \<longrightarrow> matches_any h name patterns' = matches_any h name patterns"
    by (simp add: matches_any_iff)
  have c3: "mset patterns' = mset patterns \<longrightarrow> matches_any h name patterns' = matches_any h name patterns"
    using ms c2 by blast
  have c4: "(matches_any h name patterns \<or> matches_any h full patterns) =
       (\<exists>pat \<in> set patterns. pattern_matches h name pat \<or> pattern_matches h full pat)"
    by (auto simp: matches_any_iff)
  have c5: "dir_pruned h patterns include_hidden dirpath d =
       ((\<not> include_hidden \<and> startswith d DOT)
        \<or> (\<exists>pat \<in> set patterns.
              pattern_matches h d pat \<or> pattern_matches h (str_path (dirpath @ [d])) pat))"
    by (auto simp: dir_pruned_def matches_any_iff)
  have c6: "file_entries h patterns include_hidden p dirpath (f, File sz mt) =
       (if (\<not> include_hidden \<and> startswith f DOT)
           \<or> (\<exists>pat \<in> set patterns.
                 pattern_matches h f pat \<or> pattern_matches h (str_path (dirpath @ [f])) pat)
           \<or> \<not> is_text_file h (dirpath @ [f]) SAMPLE_SIZE
        then []
        else [\<lparr>fe_root = p, fe_path = dirpath @ [f], fe_rel = drop (length p) (dirpath @ [f]),
               fe_size = sz, fe_mtime = mt\<rparr>])"
    by (auto simp: Let_def matches_any_iff simp del: drop_append)
  have c7: "node_at h q = Some (File sz mt) \<longrightarrow>
        walk_input h q patterns include_hidden =
          (if (\<not> include_hidden \<and> list_ex (\<lambda>part. startswith part DOT) (tl q))
              \<or> (\<exists>pat \<in> set patterns.
                    pattern_matches h (name_of q) pat \<or> pattern_matches h (str_path q) pat)
              \<or> \<not> is_text_file h q SAMPLE_SIZE
           then []
           else [\<lparr>fe_root = parent q, fe_path = q, fe_rel = [name_of q],
                  fe_size = sz, fe_mtime = mt\<rparr>])"
    by (auto simp: walk_input_def matches_any_iff)
  have c8: "set patterns' = set patterns \<longrightarrow>
        walk_inputs h paths patterns' include_hidden = walk_inputs h paths patterns include_hidden"
    using walk_inputs_set_cong [of patterns' patterns h paths include_hidden] by blast
  have c9: "mset patterns' = mset patterns \<longrightarrow>
        walk_inputs h paths patterns' include_hidden = walk_inputs h paths patterns include_hidden"
    using ms c8 by blast
  show ?thesis
    by (intro conjI) (fact c1 c2 c3 c4 c5 c6 c7 c8 c9)+
qed

text \<open>
  The name \<^verbatim>\<open>x.pyc\<close> matches the pattern \<^verbatim>\<open>*.pyc\<close> wherever the pattern stands in
  the list. Below \<^verbatim>\<open>/.cfg\<close>, with hidden files left out, the patterns \<^verbatim>\<open>*.pyc\<close> and
  \<^verbatim>\<open>/.cfg/sub\<close> exclude the file \<^verbatim>\<open>x.pyc\<close> by its name and the directory \<^verbatim>\<open>sub\<close>
  by its full path, in either order; with no pattern both are walked.
\<close>

theorem exclusion_match_witness:
  "mset [lit ''*.pyc'', lit ''/p/build''] = mset [lit ''/p/build'', lit ''*.pyc'']
   \<and> set [lit ''*.pyc'', lit ''/p/build''] = set [lit ''/p/build'', lit ''*.pyc'']
   \<and> matches_any small_host (lit ''x.pyc'') [lit ''/p/build'', lit ''*.pyc'']
   \<and> matches_any small_host (lit ''x.pyc'') [lit ''*.pyc'', lit ''/p/build'']
   \<and> pattern_matches small_host (lit ''/p/build/x.o'') (lit ''/p/build'')
   \<and> pattern_matches hidden_host (lit ''x.pyc'') (lit ''*.pyc'')
   \<and> file_entries hidden_host [lit ''/.cfg/sub'', lit ''*.pyc''] False cfg_dir cfg_dir
       (lit ''x.pyc'', File 1 0) = []
   \<and> pattern_matches hidden_host (str_path (cfg_dir @ [lit ''sub''])) (lit ''/.cfg/sub'')
   \<and> dir_pruned hidden_host [lit ''/.cfg/sub'', lit ''*.pyc''] False cfg_dir (lit ''sub'')
   \<and> walk_inputs hidden_host [cfg_dir] [lit ''/.cfg/sub'', lit ''*.pyc''] False =
       [entry cfg_dir [lit ''a.py''] 1]
   \<and> walk_inputs hidden_host [cfg_dir] [lit ''*.pyc'', lit ''/.cfg/sub''] False =
       [entry cfg_dir [lit ''a.py''] 1]
   \<and> walk_inputs hidden_host [cfg_dir] [] False =
       [entry cfg_dir [lit ''a.py''] 1, entry cfg_dir [lit ''x.pyc''] 1,
        entry cfg_dir [lit ''sub'', lit ''c.py''] 1]"
proof -
  let ?ex = "[lit ''/.cfg/sub'', lit ''*.pyc'']"
  let ?ex' = "[lit ''*.pyc'', lit ''/.cfg/sub'']"
  have m: "mset [lit ''*.pyc'', lit ''/p/build''] = mset [lit ''/p/build'', lit ''*.pyc'']"
    by (simp add: add_mset_commute)
  have s: "set [lit ''*.pyc'', lit ''/p/build''] = set [lit ''/p/build'', lit ''*.pyc'']"
    by auto
  have a: "matches_any small_host (lit ''x.pyc'') [lit ''/p/build'', lit ''*.pyc'']"
    by (simp add: small_host_def sample_defs startswith_def)
  have p: "pattern_matches small_host (lit ''/p/build/x.o'') (lit ''/p/build'')"
    by (simp add: pattern_matches_def small_host_def sample_defs startswith_def)
  from exclusion_match [of small_host "lit ''x.pyc''" "[lit ''/p/build'', lit ''*.pyc'']"
      "[lit ''*.pyc'', lit ''/p/build'']"] m a
  have b: "matches_any small_host (lit ''x.pyc'') [lit ''*.pyc'', lit ''/p/build'']"
    by blast
  have q: "pattern_matches hidden_host (lit ''x.pyc'') (lit ''*.pyc'')"
    and q': "pattern_matches hidden_host (str_path (cfg_dir @ [lit ''sub''])) (lit ''/.cfg/sub'')"
    by (simp_all add: pattern_matches_def hidden_defs sample_defs startswith_def)
  note facts = exclusion_match [where h = hidden_host and patterns = ?ex and patterns' = ?ex'
      and include_hidden = False and dirpath = cfg_dir and p = cfg_dir and paths = "[cfg_dir]"]
  from facts [where f = "lit ''x.pyc''" and sz = 1 and mt = 0] q
  have fe: "file_entries hidden_host ?ex False cfg_dir cfg_dir (lit ''x.pyc'', File 1 0) = []"
    by simp
  from facts [where d = "lit ''sub''"] q'
  have dp: "dir_pruned hidden_host ?ex False cfg_dir (lit ''sub'')"
    by simp
  have w: "walk_inputs hidden_host [cfg_dir] ?ex False = [entry cfg_dir [lit ''a.py''] 1]"
    and w0: "walk_inputs hidden_host [cfg_dir] [] False =
       [entry cfg_dir [lit ''a.py''] 1, entry cfg_dir [lit ''x.pyc''] 1,
        entry cfg_dir [lit ''sub'', lit ''c.py''] 1]"
    by (simp_all add: hidden_defs sample_defs walk_defs)
  have se: "set ?ex' = set ?ex"
    by auto
  from facts se w
  have w': "walk_inputs hidden_host [cfg_dir] ?ex' False = [entry cfg_dir [lit ''a.py''] 1]"
    by simp
  from m s a b p q fe q' dp w w' w0 show ?thesis
    by (intro conjI)
qed

subsection \<open>Hidden files at the input paths\<close>



subsection \<open>Candidates left out\<close>

lemma warnings_named:
  "w \<in> set (bundle_warnings h mf mt tot xs) \<Longrightarrow>
   \<exists>fe \<in> set xs. (\<exists>e. h_read_bytes h (fe_path fe) = Inl e \<and> w = warn_read fe e)
      \<or> (\<exists>raw. h_read_bytes h (fe_path fe) = Inr raw \<and> w = warn_file fe raw mf)
      \<or> w = warn_total fe mt"
  by (induction xs arbitrary: tot) (auto split: sum.splits if_splits)

lemma own_Inl: "h_read_bytes h (fe_path x) = Inl e \<Longrightarrow> own_warning h mf x = [warn_read x e]"
  by (simp add: own_warning_def)

lemma own_big:
  "h_read_bytes h (fe_path x) = Inr raw \<Longrightarrow> 0 < mf \<and> mf < int (length raw) \<Longrightarrow>
   own_warning h mf x = [warn_file x raw mf]"
  by (simp add: own_warning_def)

lemma own_none:
  "h_read_bytes h (fe_path x) = Inr raw \<Longrightarrow> \<not> (0 < mf \<and> mf < int (length raw)) \<Longrightarrow>
   own_warning h mf x = []"
  by (simp add: own_warning_def)

lemma own_cases:
  "fe \<in> set xs \<Longrightarrow>
   (\<exists>raw. (fe, raw) \<in> set (readable_within h mf xs))
   \<or> (\<exists>e. h_read_bytes h (fe_path fe) = Inl e
         \<and> warn_read fe e \<in> set (concat (map (own_warning h mf) xs)))
   \<or> (\<exists>raw. h_read_bytes h (fe_path fe) = Inr raw \<and> 0 < mf \<and> mf < int (length raw)
         \<and> warn_file fe raw mf \<in> set (concat (map (own_warning h mf) xs)))"
proof (induction xs)
  case Nil
  then show ?case by simp
next
  case (Cons x rest)
  show ?case
  proof (cases "fe = x")
    case True
    show ?thesis
    proof (cases "h_read_bytes h (fe_path x)")
      case (Inl e)
      with True show ?thesis by (simp add: own_Inl)
    next
      case (Inr raw)
      show ?thesis
      proof (cases "0 < mf \<and> mf < int (length raw)")
        case big: True
        with True Inr show ?thesis by (simp add: own_big)
      next
        case False
        with True Inr show ?thesis by auto
      qed
    qed
  next
    case False
    with Cons.prems have "fe \<in> set rest" by simp
    from Cons.IH [OF this] show ?thesis
      by (cases "h_read_bytes h (fe_path x)") auto
  qed
qed

lemma run_cases:
  assumes "0 < mt \<longrightarrow> tot \<le> mt"
  shows "(included_files h mf mt tot xs = readable_within h mf xs
          \<and> bundle_warnings h mf mt tot xs = concat (map (own_warning h mf) xs))
         \<or> (\<exists>pre t raw post. xs = pre @ t # post \<and> 0 < mt
               \<and> h_read_bytes h (fe_path t) = Inr raw
               \<and> \<not> (0 < mf \<and> mf < int (length raw))
               \<and> tot + raw_total (readable_within h mf pre) \<le> mt
               \<and> mt < tot + raw_total (readable_within h mf pre) + int (length raw)
               \<and> included_files h mf mt tot xs = readable_within h mf pre
               \<and> bundle_warnings h mf mt tot xs =
                   concat (map (own_warning h mf) pre) @ [warn_total t mt])"
  using assms
proof (induction xs arbitrary: tot)
  case Nil
  show ?case by simp
next
  case (Cons x rest)
  let ?A = "\<lambda>tot ys. included_files h mf mt tot ys = readable_within h mf ys
          \<and> bundle_warnings h mf mt tot ys = concat (map (own_warning h mf) ys)"
  let ?B = "\<lambda>tot ys pre t raw post. ys = pre @ t # post \<and> 0 < mt
               \<and> h_read_bytes h (fe_path t) = Inr raw
               \<and> \<not> (0 < mf \<and> mf < int (length raw))
               \<and> tot + raw_total (readable_within h mf pre) \<le> mt
               \<and> mt < tot + raw_total (readable_within h mf pre) + int (length raw)
               \<and> included_files h mf mt tot ys = readable_within h mf pre
               \<and> bundle_warnings h mf mt tot ys =
                   concat (map (own_warning h mf) pre) @ [warn_total t mt]"
  show ?case
  proof (cases "h_read_bytes h (fe_path x)")
    case (Inl e)
    from Cons.IH [OF Cons.prems] consider "?A tot rest"
      | pre t raw post where "?B tot rest pre t raw post" by blast
    then show ?thesis
    proof cases
      case 1
      with Inl show ?thesis by (simp add: own_Inl)
    next
      case 2
      with Inl have "?B tot (x # rest) (x # pre) t raw post"
        by (auto simp: own_Inl)
      then show ?thesis by blast
    qed
  next
    case (Inr rawx)
    show ?thesis
    proof (cases "0 < mf \<and> mf < int (length rawx)")
      case big: True
      from Cons.IH [OF Cons.prems] consider "?A tot rest"
        | pre t raw post where "?B tot rest pre t raw post" by blast
      then show ?thesis
      proof cases
        case 1
        with Inr big show ?thesis by (simp add: own_big)
      next
        case 2
        with Inr big have "?B tot (x # rest) (x # pre) t raw post"
          by (auto simp: own_big)
        then show ?thesis by blast
      qed
    next
      case small: False
      show ?thesis
      proof (cases "0 < mt \<and> mt < tot + int (length rawx)")
        case True
        with Inr small Cons.prems have "?B tot (x # rest) [] x rawx rest"
          by (auto simp: raw_total_def)
        then show ?thesis by blast
      next
        case fits: False
        then have ok: "0 < mt \<longrightarrow> tot + int (length rawx) \<le> mt" by auto
        from Cons.IH [OF ok] consider "?A (tot + int (length rawx)) rest"
          | pre t raw post where "?B (tot + int (length rawx)) rest pre t raw post" by blast
        then show ?thesis
        proof cases
          case 1
          with Inr small fits show ?thesis by (auto simp: own_none)
        next
          case 2
          with Inr small fits have "?B tot (x # rest) (x # pre) t raw post"
            by (auto simp: own_none raw_total_Cons)
          then show ?thesis by blast
        qed
      qed
    qed
  qed
qed

text \<open>
  C3, as amended. Let the pipeline return a text and warnings, and let \<open>es\<close> be the
  candidates, the entries that the traverser yielded and the extension filter kept, in
  sorted order. The text is the preamble and the blocks of the files included. Every
  candidate was accepted by the classifier: a file that it rejects is no candidate.
  One of two cases holds. Either the loop did not stop: the files included are exactly
  the candidates that are read and are within the limit for one file, and the warnings
  are exactly the warnings of the candidates on their own account (the read failed, or
  the file is over the limit for one file), in order; so every candidate is included or
  named by a warning of its own. Or the loop stopped at a candidate \<open>t\<close>, with \<open>pre\<close>
  before it and \<open>post\<close> after it: \<open>t\<close> is read and is within the limit for one file, the
  entries of \<open>pre\<close> that are read and within that limit fit in the budget and are the
  files included, \<open>t\<close> is the first that does not fit, and the warnings are those of the
  entries of \<open>pre\<close> on their own account followed by the one warning that names \<open>t\<close>;
  \<open>t\<close> and the entries after it have no other warning. Every warning names a candidate.
  The traverser and the extension filter return entries only: what they drop (hidden
  names, matches of the patterns, other extensions, and files the classifier rejects)
  is dropped with no warning.
\<close>

theorem dropped_candidates_warned:
  assumes "pipeline h roots exclude include_hidden allowed_exts max_file_bytes max_total_bytes
             = Inr (final, ws)"
  shows "let cands = filter_by_ext h (walk_inputs h roots exclude include_hidden) (Some allowed_exts);
             es = sort_entries h cands;
             inc = included_files h max_file_bytes max_total_bytes 0 es
         in final =
              INTRO_TEMPLATE (h_now_iso h)
                (join (lit '', '') (sorted_list_of_set (set (map (\<lambda>e. str_path (fe_root e)) es))))
                (int (length inc)) (raw_total inc)
              @ NL @ blocks h inc
            \<and> mset es = mset cands
            \<and> (\<forall>fe \<in> set es. is_text_file h (fe_path fe) SAMPLE_SIZE)
            \<and> ((inc = readable_within h max_file_bytes es
                 \<and> ws = concat (map (own_warning h max_file_bytes) es)
                 \<and> (\<forall>fe \<in> set es.
                       (\<exists>raw. (fe, raw) \<in> set inc)
                       \<or> (\<exists>e. h_read_bytes h (fe_path fe) = Inl e \<and> warn_read fe e \<in> set ws)
                       \<or> (\<exists>raw. h_read_bytes h (fe_path fe) = Inr raw
                             \<and> 0 < max_file_bytes \<and> max_file_bytes < int (length raw)
                             \<and> warn_file fe raw max_file_bytes \<in> set ws)))
                \<or> (\<exists>pre t raw post.
                      es = pre @ t # post \<and> 0 < max_total_bytes
                      \<and> h_read_bytes h (fe_path t) = Inr raw
                      \<and> \<not> (0 < max_file_bytes \<and> max_file_bytes < int (length raw))
                      \<and> raw_total (readable_within h max_file_bytes pre) \<le> max_total_bytes
                      \<and> max_total_bytes
                          < raw_total (readable_within h max_file_bytes pre) + int (length raw)
                      \<and> inc = readable_within h max_file_bytes pre
                      \<and> ws = concat (map (own_warning h max_file_bytes) pre)
                               @ [warn_total t max_total_bytes]
                      \<and> (\<forall>fe \<in> set pre.
                            (\<exists>raw. (fe, raw) \<in> set inc)
                            \<or> (\<exists>e. h_read_bytes h (fe_path fe) = Inl e \<and> warn_read fe e \<in> set ws)
                            \<or> (\<exists>raw. h_read_bytes h (fe_path fe) = Inr raw
                                  \<and> 0 < max_file_bytes \<and> max_file_bytes < int (length raw)
                                  \<and> warn_file fe raw max_file_bytes \<in> set ws))))
            \<and> (\<forall>w \<in> set ws. \<exists>fe \<in> set es.
                  (\<exists>e. h_read_bytes h (fe_path fe) = Inl e \<and> w = warn_read fe e)
                  \<or> (\<exists>raw. h_read_bytes h (fe_path fe) = Inr raw
                        \<and> w = warn_file fe raw max_file_bytes)
                  \<or> w = warn_total fe max_total_bytes)"
proof -
  let ?mf = max_file_bytes and ?mt = max_total_bytes
  let ?cands = "filter_by_ext h (walk_inputs h roots exclude include_hidden) (Some allowed_exts)"
  let ?es = "sort_entries h ?cands"
  let ?inc = "included_files h ?mf ?mt 0 ?es"
  from assms have b: "bundle_files h ?cands ?mf ?mt = (final, ws)"
    by (simp add: pipeline_def Let_def split: if_splits)
  have m: "mset ?es = mset ?cands"
    by (simp add: sort_entries_def)
  from b have ws: "ws = bundle_warnings h ?mf ?mt 0 ?es"
    and final: "final =
              INTRO_TEMPLATE (h_now_iso h)
                (join (lit '', '') (sorted_list_of_set (set (map (\<lambda>e. str_path (fe_root e)) ?es))))
                (int (length ?inc)) (raw_total ?inc)
              @ NL @ blocks h ?inc"
    by (simp_all add: bundle_files_eq Let_def)
  have "set ?cands \<subseteq> set (walk_inputs h roots exclude include_hidden)"
    by (rule filter_by_ext_subset)
  then have tx: "\<forall>fe \<in> set ?es. is_text_file h (fe_path fe) SAMPLE_SIZE"
    by (auto simp: sort_entries_def dest: walk_inputs_text)
  have named: "\<forall>fe \<in> set xs.
                 (\<exists>raw. (fe, raw) \<in> set (readable_within h ?mf xs))
                 \<or> (\<exists>e. h_read_bytes h (fe_path fe) = Inl e
                       \<and> warn_read fe e \<in> set (concat (map (own_warning h ?mf) xs) @ more_ws))
                 \<or> (\<exists>raw. h_read_bytes h (fe_path fe) = Inr raw \<and> 0 < ?mf \<and> ?mf < int (length raw)
                       \<and> warn_file fe raw ?mf \<in> set (concat (map (own_warning h ?mf) xs) @ more_ws))"
    for xs more_ws
    using own_cases [of _ xs h ?mf] by fastforce
  have n: "\<forall>w \<in> set ws. \<exists>fe \<in> set ?es.
                  (\<exists>e. h_read_bytes h (fe_path fe) = Inl e \<and> w = warn_read fe e)
                  \<or> (\<exists>raw. h_read_bytes h (fe_path fe) = Inr raw \<and> w = warn_file fe raw ?mf)
                  \<or> w = warn_total fe ?mt"
    using warnings_named [of _ h ?mf ?mt 0 ?es] unfolding ws by blast
  have "0 < ?mt \<longrightarrow> (0::int) \<le> ?mt" by simp
  from run_cases [OF this, of h ?mf ?es]
  consider (all) "?inc = readable_within h ?mf ?es"
      "ws = concat (map (own_warning h ?mf) ?es)"
    | (stopped) pre t raw post where "?es = pre @ t # post" "0 < ?mt"
      "h_read_bytes h (fe_path t) = Inr raw"
      "\<not> (0 < ?mf \<and> ?mf < int (length raw))"
      "raw_total (readable_within h ?mf pre) \<le> ?mt"
      "?mt < raw_total (readable_within h ?mf pre) + int (length raw)"
      "?inc = readable_within h ?mf pre"
      "ws = concat (map (own_warning h ?mf) pre) @ [warn_total t ?mt]"
    unfolding ws by auto
  then show ?thesis
  proof cases
    case all
    with named [of ?es "[]"] final m tx n show ?thesis
      unfolding Let_def by simp
  next
    case stopped
    with named [of pre "[warn_total t ?mt]"] final m tx n show ?thesis
      unfolding Let_def by (intro conjI disjI2 exI [of _ pre] exI [of _ t] exI [of _ raw] exI [of _ post]) simp_all
  qed
qed

text \<open>
  Budget five on the three small files: \<^verbatim>\<open>a.py\<close> is included, and the one warning
  says that the loop stopped before \<^verbatim>\<open>B.py\<close>; \<^verbatim>\<open>c.py\<close> has no other. When \<^verbatim>\<open>B.py\<close>
  can no longer be read after the traversal, the run includes the two other files and
  warns of the read that failed.
\<close>

theorem dropped_candidates_warned_witness:
  "pipeline small_host [src_dir] [] False [lit ''.py''] 0 5 =
     Inr (fst (bundle_files small_host [small_a, small_b, small_c] 0 5), [warn_total small_b 5])
   \<and> filter_by_ext small_host (walk_inputs small_host [src_dir] [] False) (Some [lit ''.py'']) =
       [small_a, small_b, small_c]
   \<and> sort_entries small_host [small_a, small_b, small_c] = [small_a] @ small_b # [small_c]
   \<and> included_files small_host 0 5 0 [small_a, small_b, small_c] = [(small_a, [104, 105, 10])]
   \<and> readable_within small_host 0 [small_a] = [(small_a, [104, 105, 10])]
   \<and> concat (map (own_warning small_host 0) [small_a]) @ [warn_total small_b 5] =
       [warn_total small_b 5]
   \<and> fst (bundle_files small_host [small_a, small_b, small_c] 0 5) =
       INTRO_TEMPLATE (h_now_iso small_host) (lit ''/p'') 1 3
         @ NL @ blocks small_host [(small_a, [104, 105, 10])]
   \<and> pipeline racy_host [src_dir] [] False [lit ''.py''] 0 0 =
       Inr (fst (bundle_files racy_host [small_a, small_b, small_c] 0 0),
            [warn_read small_b (lit ''No such file'')])
   \<and> included_files racy_host 0 0 0 [small_a, small_b, small_c] =
       [(small_a, [104, 105, 10]), (small_c, [120])]"
proof -
  have w: "walk_inputs small_host [src_dir] [] False = [small_a, small_b, small_c]"
    by (simp add: small_defs sample_defs walk_defs)
  have f: "filter_by_ext small_host [small_a, small_b, small_c] (Some [lit ''.py'']) =
       [small_a, small_b, small_c]"
    by (simp add: filter_by_ext_def small_defs sample_defs strip_def suffix_of_def name_of_def
        Let_def)
  have s: "sort_entries small_host [small_a, small_b, small_c] = [small_a, small_b, small_c]"
    by (simp add: small_defs sample_defs)
  have ra: "h_read_bytes small_host (fe_path small_a) = Inr [104, 105, 10]"
    and rb: "h_read_bytes small_host (fe_path small_b) = Inr [104, 13, 10, 33]"
    and rc: "h_read_bytes small_host (fe_path small_c) = Inr [120]"
    by (simp_all add: small_defs sample_defs)
  have i: "included_files small_host 0 5 0 [small_a, small_b, small_c] = [(small_a, [104, 105, 10])]"
    and ws: "bundle_warnings small_host 0 5 0 [small_a, small_b, small_c] = [warn_total small_b 5]"
    and rw: "readable_within small_host 0 [small_a] = [(small_a, [104, 105, 10])]"
    and ow: "concat (map (own_warning small_host 0) [small_a]) @ [warn_total small_b 5] =
       [warn_total small_b 5]"
    using ra rb rc by (simp_all add: own_warning_def)
  have roots: "join (lit '', '')
         (sorted_list_of_set (set (map (\<lambda>e. str_path (fe_root e)) [small_a, small_b, small_c]))) =
       lit ''/p''"
    by (simp add: small_defs sample_defs)
  have p: "pipeline small_host [src_dir] [] False [lit ''.py''] 0 5 =
     Inr (fst (bundle_files small_host [small_a, small_b, small_c] 0 5), [warn_total small_b 5])"
    unfolding pipeline_def w f using ws by (simp add: bundle_files_eq Let_def s)
  have t: "fst (bundle_files small_host [small_a, small_b, small_c] 0 5) =
       INTRO_TEMPLATE (h_now_iso small_host) (lit ''/p'') 1 3
         @ NL @ blocks small_host [(small_a, [104, 105, 10])]"
    using dropped_candidates_warned [OF p, unfolded Let_def w f s i roots, THEN conjunct1]
    by (simp add: raw_total_def)
  have w': "walk_inputs racy_host [src_dir] [] False = [small_a, small_b, small_c]"
    by (simp add: racy_host_def small_defs sample_defs walk_defs)
  have f': "filter_by_ext racy_host [small_a, small_b, small_c] (Some [lit ''.py'']) =
       [small_a, small_b, small_c]"
    by (simp add: filter_by_ext_def racy_host_def small_defs sample_defs strip_def suffix_of_def
        name_of_def Let_def)
  have s': "sort_entries racy_host [small_a, small_b, small_c] = [small_a, small_b, small_c]"
    by (simp add: racy_host_def small_defs sample_defs)
  have ra': "h_read_bytes racy_host (fe_path small_a) = Inr [104, 105, 10]"
    and rb': "h_read_bytes racy_host (fe_path small_b) = Inl (lit ''No such file'')"
    and rc': "h_read_bytes racy_host (fe_path small_c) = Inr [120]"
    by (simp_all add: racy_host_def small_defs sample_defs)
  have i': "included_files racy_host 0 0 0 [small_a, small_b, small_c] =
       [(small_a, [104, 105, 10]), (small_c, [120])]"
    and ws': "bundle_warnings racy_host 0 0 0 [small_a, small_b, small_c] =
       [warn_read small_b (lit ''No such file'')]"
    using ra' rb' rc' by simp_all
  have p': "pipeline racy_host [src_dir] [] False [lit ''.py''] 0 0 =
       Inr (fst (bundle_files racy_host [small_a, small_b, small_c] 0 0),
            [warn_read small_b (lit ''No such file'')])"
    unfolding pipeline_def w' f' using ws' by (simp add: bundle_files_eq Let_def s')
  from p w f s i rw ow t p' i' show ?thesis
    by (simp only: append_Cons append_Nil simp_thms)
qed

text \<open>
  C3 as stated fails. The file \<^verbatim>\<open>/p/a.py\<close> is below the input directory, is not
  hidden, matches no pattern and has an allowed extension; it holds a NUL byte, so the
  classifier rejects it and the traverser does not yield it. The run includes
  \<^verbatim>\<open>b.py\<close> only and returns no warning at all.
\<close>

theorem dropped_candidates_warned_counterexample:
  "node_at nul_host (src_dir @ [lit ''a.py'']) = Some (File 3 0)
   \<and> \<not> startswith (lit ''a.py'') DOT
   \<and> \<not> matches_any nul_host (lit ''a.py'') []
   \<and> h_lower nul_host (suffix_of (src_dir @ [lit ''a.py'']))
       \<in> set (map (\<lambda>e. strip nul_host (h_lower nul_host e)) [lit ''.py''])
   \<and> \<not> is_text_file nul_host (src_dir @ [lit ''a.py'']) SAMPLE_SIZE
   \<and> walk_inputs nul_host [src_dir] [] False = [entry src_dir [lit ''b.py''] 2]
   \<and> pipeline nul_host [src_dir] [] False [lit ''.py''] 0 0 =
       Inr (fst (bundle_files nul_host [entry src_dir [lit ''b.py''] 2] 0 0), [])
   \<and> map fst (included_files nul_host 0 0 0 (sort_entries nul_host [entry src_dir [lit ''b.py''] 2])) =
       [entry src_dir [lit ''b.py''] 2]"
proof -
  have n: "node_at nul_host (src_dir @ [lit ''a.py'']) = Some (File 3 0)"
    and d: "\<not> startswith (lit ''a.py'') DOT"
    and c: "\<not> is_text_file nul_host (src_dir @ [lit ''a.py'']) SAMPLE_SIZE"
    by (simp_all add: nul_host_def sample_defs walk_defs)
  have x: "h_lower nul_host (suffix_of (src_dir @ [lit ''a.py'']))
       \<in> set (map (\<lambda>e. strip nul_host (h_lower nul_host e)) [lit ''.py''])"
    by (simp add: nul_host_def sample_defs strip_def suffix_of_def name_of_def Let_def)
  have w: "walk_inputs nul_host [src_dir] [] False = [entry src_dir [lit ''b.py''] 2]"
    by (simp add: nul_host_def sample_defs walk_defs)
  have f: "filter_by_ext nul_host [entry src_dir [lit ''b.py''] 2] (Some [lit ''.py'']) =
       [entry src_dir [lit ''b.py''] 2]"
    by (simp add: filter_by_ext_def nul_host_def sample_defs strip_def suffix_of_def name_of_def
        Let_def)
  have i: "map fst (included_files nul_host 0 0 0 (sort_entries nul_host [entry src_dir [lit ''b.py''] 2])) =
       [entry src_dir [lit ''b.py''] 2]"
    and ws: "bundle_warnings nul_host 0 0 0 (sort_entries nul_host [entry src_dir [lit ''b.py''] 2]) = []"
    by (simp_all add: nul_host_def sample_defs)
  have p: "pipeline nul_host [src_dir] [] False [lit ''.py''] 0 0 =
       Inr (fst (bundle_files nul_host [entry src_dir [lit ''b.py''] 2] 0 0), [])"
    unfolding pipeline_def w f using ws by (simp add: bundle_files_eq Let_def)
  from n d x c w p i show ?thesis by simp
qed

end
